theory Spec2Isabelle
  imports Complex_Main "HOL-Library.Word" "HOL-Library.Multiset"
begin

chapter \<open>The program\<close>

section \<open>Strings\<close>

text \<open>
  A JavaScript string is a sequence of UTF-16 code units. Every character the program
  compares against lies in the Basic Multilingual Plane, so it is one code unit. A string
  is modelled as the list of its code units, each a natural number (a unit is below
  65536; no property here needs the bound); \<open>input[i]\<close> is the one-unit string at index
  \<open>i\<close>, and comparing two one-unit strings compares the units. \<open>ascii\<close> turns an
  ASCII literal into such a list.
\<close>

type_synonym jsstring = "nat list"

definition ascii :: "string \<Rightarrow> jsstring" where
  "ascii s = map of_char s"

abbreviation (input) ch_tab :: nat where "ch_tab \<equiv> 9"
abbreviation (input) ch_newline :: nat where "ch_newline \<equiv> 10"
abbreviation (input) ch_space :: nat where "ch_space \<equiv> 32"
abbreviation (input) ch_amp :: nat where "ch_amp \<equiv> 38"
abbreviation (input) ch_lparen :: nat where "ch_lparen \<equiv> 40"
abbreviation (input) ch_rparen :: nat where "ch_rparen \<equiv> 41"
abbreviation (input) ch_minus :: nat where "ch_minus \<equiv> 45"
abbreviation (input) ch_less :: nat where "ch_less \<equiv> 60"
abbreviation (input) ch_greater :: nat where "ch_greater \<equiv> 62"
abbreviation (input) ch_A :: nat where "ch_A \<equiv> 65"
abbreviation (input) ch_V :: nat where "ch_V \<equiv> 86"
abbreviation (input) ch_Z :: nat where "ch_Z \<equiv> 90"
abbreviation (input) ch_v :: nat where "ch_v \<equiv> 118"
abbreviation (input) ch_tilde :: nat where "ch_tilde \<equiv> 126"
abbreviation (input) u_not :: nat where "u_not \<equiv> 172"    \<comment> \<open>U+00AC, the negation sign\<close>
abbreviation (input) u_imp :: nat where "u_imp \<equiv> 8594"   \<comment> \<open>U+2192, the rightwards arrow\<close>
abbreviation (input) u_iff :: nat where "u_iff \<equiv> 8596"   \<comment> \<open>U+2194, the left right arrow\<close>
abbreviation (input) u_and :: nat where "u_and \<equiv> 8743"   \<comment> \<open>U+2227, logical and\<close>
abbreviation (input) u_or :: nat where "u_or \<equiv> 8744"     \<comment> \<open>U+2228, logical or\<close>

section \<open>Tokens and the tokenizer\<close>

datatype tokenType =
  TyVAR | TyLPAREN | TyRPAREN | TyNOT | TyAND | TyOR | TyIMP | TyBICOND

datatype token =
  VAR jsstring | LPAREN | RPAREN | NOT | AND | OR | IMP | BICOND

fun type_of :: "token \<Rightarrow> tokenType" where
  "type_of (VAR name) = TyVAR"
| "type_of LPAREN = TyLPAREN"
| "type_of RPAREN = TyRPAREN"
| "type_of NOT = TyNOT"
| "type_of AND = TyAND"
| "type_of OR = TyOR"
| "type_of IMP = TyIMP"
| "type_of BICOND = TyBICOND"

text \<open>
  Every \<open>throw new Error(...)\<close> of the source is one constructor; the constructor stands
  for the message text, with the interpolated parts as arguments.
\<close>

datatype error =
    UnexpectedCharacter nat                 \<comment> \<open>Unexpected character: 'c'\<close>
  | UnexpectedEndOfInput                    \<comment> \<open>Unexpected end of input\<close>
  | ExpectedGot tokenType tokenType         \<comment> \<open>Expected X, got Y\<close>
  | UnexpectedEndOfInputInPrimary           \<comment> \<open>Unexpected end of input in primary\<close>
  | MissingClosingParenthesis               \<comment> \<open>Missing closing parenthesis\<close>
  | UnexpectedTokenInPrimary tokenType      \<comment> \<open>Unexpected token in primary: Y\<close>
  | ExtraTokensAtEnd                        \<comment> \<open>Extra tokens at end of input\<close>

text \<open>
  The loop of \<open>tokenize\<close>, on the part of the input from index \<open>i\<close> on and the tokens
  pushed so far. The branches are in the order of the source: the upper-case test comes
  before the test for the spellings of the disjunction.
\<close>

fun tokenize_loop :: "jsstring \<Rightarrow> token list \<Rightarrow> error + token list" where
  "tokenize_loop [] tokens = Inr tokens"
| "tokenize_loop (c # cs) tokens =
     (if c = ch_space \<or> c = ch_tab \<or> c = ch_newline then tokenize_loop cs tokens
      else if ch_A \<le> c \<and> c \<le> ch_Z then tokenize_loop cs (tokens @ [VAR [c]])
      else if c = ch_lparen then tokenize_loop cs (tokens @ [LPAREN])
      else if c = ch_rparen then tokenize_loop cs (tokens @ [RPAREN])
      else if c = ch_tilde \<or> c = u_not then tokenize_loop cs (tokens @ [NOT])
      else if c = ch_amp \<or> c = u_and then tokenize_loop cs (tokens @ [AND])
      else if c = ch_v \<or> c = ch_V \<or> c = u_or then tokenize_loop cs (tokens @ [OR])
      else if take 2 (c # cs) = [ch_minus, ch_greater]
        then tokenize_loop (drop 2 (c # cs)) (tokens @ [IMP])
      else if c = u_imp then tokenize_loop cs (tokens @ [IMP])
      else if take 3 (c # cs) = [ch_less, ch_minus, ch_greater]
        then tokenize_loop (drop 3 (c # cs)) (tokens @ [BICOND])
      else if c = u_iff then tokenize_loop cs (tokens @ [BICOND])
      else Inl (UnexpectedCharacter c))"

definition tokenize :: "jsstring \<Rightarrow> error + token list" where
  "tokenize input = tokenize_loop input []"

section \<open>Formulas and the parser\<close>

text \<open>
  A node is a tagged union; the tag \<open>type\<close> is the constructor, and the field \<open>op\<close> of a
  unary node, which is always NOT, is left out. A node's \<open>id\<close> is the string \<open>n\<close>
  followed by the decimal value the counter had when the node was built; the model keeps
  that value. \<open>genId\<close> takes the global counter and returns the identity with the
  counter's new value.
\<close>

datatype binop = OpAND | OpOR | OpIMP | OpBICOND

datatype FormulaNode =
    Var nat jsstring
  | Unary nat FormulaNode
  | Binary nat binop FormulaNode FormulaNode

definition genId :: "nat \<Rightarrow> nat \<times> nat" where
  "genId idCounter = (idCounter, idCounter + 1)"

text \<open>
  The parser reads the array \<open>tokens\<close> at the index \<open>pos\<close> and only ever moves
  \<open>pos\<close> forward. The pair is modelled by the tokens from \<open>pos\<close> on: \<open>tokens[pos]\<close>
  is the head of that list when there is one (\<open>undefined\<close> otherwise), \<open>pos++\<close> drops the
  head, and \<open>pos !== tokens.length\<close> says that the list is not empty. Every parsing
  function takes the remaining tokens and the identity counter, and returns the error
  thrown or the node built with the tokens and the counter it leaves. \<open>next_is ty\<close> is
  the test \<open>next() && next().type === ty\<close> of the source, and each \<open>while\<close> loop is the
  function named after its level with the suffix \<open>_loop\<close>, whose first argument is the
  variable \<open>node\<close> of the loop.
\<close>

definition next_tok :: "token list \<Rightarrow> token option" where
  "next_tok ts = (case ts of [] \<Rightarrow> None | t # _ \<Rightarrow> Some t)"

definition eat :: "tokenType option \<Rightarrow> token list \<Rightarrow> error + (token \<times> token list)" where
  "eat expected ts =
     (case ts of
        [] \<Rightarrow> Inl UnexpectedEndOfInput
      | tok # rest \<Rightarrow>
          (case expected of
             None \<Rightarrow> Inr (tok, rest)
           | Some e \<Rightarrow>
               if type_of tok \<noteq> e then Inl (ExpectedGot e (type_of tok))
               else Inr (tok, rest)))"

definition next_is :: "tokenType \<Rightarrow> token list \<Rightarrow> bool" where
  "next_is ty ts = (case next_tok ts of None \<Rightarrow> False | Some t \<Rightarrow> type_of t = ty)"

type_synonym presult = "error + (FormulaNode \<times> token list \<times> nat)"

function parsePrimary :: "token list \<Rightarrow> nat \<Rightarrow> presult"
  and parseUnary :: "token list \<Rightarrow> nat \<Rightarrow> presult"
  and parseAnd :: "token list \<Rightarrow> nat \<Rightarrow> presult"
  and parseAnd_loop :: "FormulaNode \<Rightarrow> token list \<Rightarrow> nat \<Rightarrow> presult"
  and parseOr :: "token list \<Rightarrow> nat \<Rightarrow> presult"
  and parseOr_loop :: "FormulaNode \<Rightarrow> token list \<Rightarrow> nat \<Rightarrow> presult"
  and parseImp :: "token list \<Rightarrow> nat \<Rightarrow> presult"
  and parseImp_loop :: "FormulaNode \<Rightarrow> token list \<Rightarrow> nat \<Rightarrow> presult"
  and parseBicond :: "token list \<Rightarrow> nat \<Rightarrow> presult"
  and parseBicond_loop :: "FormulaNode \<Rightarrow> token list \<Rightarrow> nat \<Rightarrow> presult"
where
  "parsePrimary ts c =
     (case next_tok ts of
        None \<Rightarrow> Inl UnexpectedEndOfInputInPrimary
      | Some t \<Rightarrow>
          (case t of
             VAR name \<Rightarrow>
               (case eat (Some TyVAR) ts of
                  Inl e \<Rightarrow> Inl e
                | Inr (tok, ts1) \<Rightarrow>
                    (case genId c of (i, c1) \<Rightarrow> Inr (Var i name, ts1, c1)))
           | LPAREN \<Rightarrow>
               (case eat (Some TyLPAREN) ts of
                  Inl e \<Rightarrow> Inl e
                | Inr (tok, ts1) \<Rightarrow>
                    (case parseBicond ts1 c of
                       Inl e \<Rightarrow> Inl e
                     | Inr (inside, ts2, c2) \<Rightarrow>
                         if \<not> next_is TyRPAREN ts2 then Inl MissingClosingParenthesis
                         else (case eat (Some TyRPAREN) ts2 of
                                 Inl e \<Rightarrow> Inl e
                               | Inr (tok2, ts3) \<Rightarrow> Inr (inside, ts3, c2))))
           | _ \<Rightarrow> Inl (UnexpectedTokenInPrimary (type_of t))))"
| "parseUnary ts c =
     (if next_is TyNOT ts then
        (case eat (Some TyNOT) ts of
           Inl e \<Rightarrow> Inl e
         | Inr (tok, ts1) \<Rightarrow>
             (case parseUnary ts1 c of
                Inl e \<Rightarrow> Inl e
              | Inr (child, ts2, c2) \<Rightarrow>
                  (case genId c2 of (i, c3) \<Rightarrow> Inr (Unary i child, ts2, c3))))
      else parsePrimary ts c)"
| "parseAnd ts c =
     (case parseUnary ts c of
        Inl e \<Rightarrow> Inl e
      | Inr (node, ts1, c1) \<Rightarrow> parseAnd_loop node ts1 c1)"
| "parseAnd_loop node ts c =
     (if next_is TyAND ts then
        (case eat (Some TyAND) ts of
           Inl e \<Rightarrow> Inl e
         | Inr (tok, ts1) \<Rightarrow>
             (case parseUnary ts1 c of
                Inl e \<Rightarrow> Inl e
              | Inr (right, ts2, c2) \<Rightarrow>
                  (case genId c2 of (i, c3) \<Rightarrow>
                     parseAnd_loop (Binary i OpAND node right) ts2 c3)))
      else Inr (node, ts, c))"
| "parseOr ts c =
     (case parseAnd ts c of
        Inl e \<Rightarrow> Inl e
      | Inr (node, ts1, c1) \<Rightarrow> parseOr_loop node ts1 c1)"
| "parseOr_loop node ts c =
     (if next_is TyOR ts then
        (case eat (Some TyOR) ts of
           Inl e \<Rightarrow> Inl e
         | Inr (tok, ts1) \<Rightarrow>
             (case parseAnd ts1 c of
                Inl e \<Rightarrow> Inl e
              | Inr (right, ts2, c2) \<Rightarrow>
                  (case genId c2 of (i, c3) \<Rightarrow>
                     parseOr_loop (Binary i OpOR node right) ts2 c3)))
      else Inr (node, ts, c))"
| "parseImp ts c =
     (case parseOr ts c of
        Inl e \<Rightarrow> Inl e
      | Inr (node, ts1, c1) \<Rightarrow> parseImp_loop node ts1 c1)"
| "parseImp_loop node ts c =
     (if next_is TyIMP ts then
        (case eat (Some TyIMP) ts of
           Inl e \<Rightarrow> Inl e
         | Inr (tok, ts1) \<Rightarrow>
             (case parseOr ts1 c of
                Inl e \<Rightarrow> Inl e
              | Inr (right, ts2, c2) \<Rightarrow>
                  (case genId c2 of (i, c3) \<Rightarrow>
                     parseImp_loop (Binary i OpIMP node right) ts2 c3)))
      else Inr (node, ts, c))"
| "parseBicond ts c =
     (case parseImp ts c of
        Inl e \<Rightarrow> Inl e
      | Inr (node, ts1, c1) \<Rightarrow> parseBicond_loop node ts1 c1)"
| "parseBicond_loop node ts c =
     (if next_is TyBICOND ts then
        (case eat (Some TyBICOND) ts of
           Inl e \<Rightarrow> Inl e
         | Inr (tok, ts1) \<Rightarrow>
             (case parseImp ts1 c of
                Inl e \<Rightarrow> Inl e
              | Inr (right, ts2, c2) \<Rightarrow>
                  (case genId c2 of (i, c3) \<Rightarrow>
                     parseBicond_loop (Binary i OpBICOND node right) ts2 c3)))
      else Inr (node, ts, c))"
  by pat_completeness auto

text \<open>
  Termination: a parsing function that returns a node has consumed a token, and a loop
  never gives tokens back. This is first shown wherever the functions are defined.
\<close>

abbreviation (input) parse_dom where
  "parse_dom \<equiv> parsePrimary_parseUnary_parseAnd_parseAnd_loop_parseOr_parseOr_loop_parseImp_parseImp_loop_parseBicond_parseBicond_loop_dom"

lemma eat_Inr_iff:
  "eat expected ts = Inr (tok, rest) \<longleftrightarrow>
     ts = tok # rest \<and> (\<forall>e. expected = Some e \<longrightarrow> type_of tok = e)"
  by (auto simp: eat_def split: list.splits option.splits if_splits)

lemma parse_progress_partial:
  "parse_dom (Inl (Inl (Inl (ts, c)))) \<Longrightarrow>
     (\<forall>n r c'. parsePrimary ts c = Inr (n, r, c') \<longrightarrow> length r < length ts)"
  "parse_dom (Inl (Inl (Inr (ts, c)))) \<Longrightarrow>
     (\<forall>n r c'. parseUnary ts c = Inr (n, r, c') \<longrightarrow> length r < length ts)"
  "parse_dom (Inl (Inr (Inl (ts, c)))) \<Longrightarrow>
     (\<forall>n r c'. parseAnd ts c = Inr (n, r, c') \<longrightarrow> length r < length ts)"
  "parse_dom (Inl (Inr (Inr (Inl (node, ts, c))))) \<Longrightarrow>
     (\<forall>n r c'. parseAnd_loop node ts c = Inr (n, r, c') \<longrightarrow> length r \<le> length ts)"
  "parse_dom (Inl (Inr (Inr (Inr (ts, c))))) \<Longrightarrow>
     (\<forall>n r c'. parseOr ts c = Inr (n, r, c') \<longrightarrow> length r < length ts)"
  "parse_dom (Inr (Inl (Inl (node, ts, c)))) \<Longrightarrow>
     (\<forall>n r c'. parseOr_loop node ts c = Inr (n, r, c') \<longrightarrow> length r \<le> length ts)"
  "parse_dom (Inr (Inl (Inr (ts, c)))) \<Longrightarrow>
     (\<forall>n r c'. parseImp ts c = Inr (n, r, c') \<longrightarrow> length r < length ts)"
  "parse_dom (Inr (Inr (Inl (node, ts, c)))) \<Longrightarrow>
     (\<forall>n r c'. parseImp_loop node ts c = Inr (n, r, c') \<longrightarrow> length r \<le> length ts)"
  "parse_dom (Inr (Inr (Inr (Inl (ts, c))))) \<Longrightarrow>
     (\<forall>n r c'. parseBicond ts c = Inr (n, r, c') \<longrightarrow> length r < length ts)"
  "parse_dom (Inr (Inr (Inr (Inr (node, ts, c))))) \<Longrightarrow>
     (\<forall>n r c'. parseBicond_loop node ts c = Inr (n, r, c') \<longrightarrow> length r \<le> length ts)"
proof (induct rule: parsePrimary_parseUnary_parseAnd_parseAnd_loop_parseOr_parseOr_loop_parseImp_parseImp_loop_parseBicond_parseBicond_loop.pinduct)
  case (1 ts c)
  from 1(2) show ?case
    by (fastforce simp: parsePrimary.psimps[OF 1(1)] eat_Inr_iff genId_def
        split: option.splits token.splits sum.splits prod.splits if_splits)
next
  case (2 ts c)
  from 2(2,3) show ?case
    by (auto simp: parseUnary.psimps[OF 2(1)] eat_Inr_iff genId_def
        split: option.splits token.splits sum.splits prod.splits if_splits)
next
  case (3 ts c)
  from 3(2,3) show ?case
    by (fastforce simp: parseAnd.psimps[OF 3(1)] eat_Inr_iff genId_def
        split: option.splits token.splits sum.splits prod.splits if_splits)
next
  case (4 node ts c)
  from 4(2,3) show ?case
    by (fastforce simp: parseAnd_loop.psimps[OF 4(1)] eat_Inr_iff genId_def
        split: option.splits token.splits sum.splits prod.splits if_splits)
next
  case (5 ts c)
  from 5(2,3) show ?case
    by (fastforce simp: parseOr.psimps[OF 5(1)] eat_Inr_iff genId_def
        split: option.splits token.splits sum.splits prod.splits if_splits)
next
  case (6 node ts c)
  from 6(2,3) show ?case
    by (fastforce simp: parseOr_loop.psimps[OF 6(1)] eat_Inr_iff genId_def
        split: option.splits token.splits sum.splits prod.splits if_splits)
next
  case (7 ts c)
  from 7(2,3) show ?case
    by (fastforce simp: parseImp.psimps[OF 7(1)] eat_Inr_iff genId_def
        split: option.splits token.splits sum.splits prod.splits if_splits)
next
  case (8 node ts c)
  from 8(2,3) show ?case
    by (fastforce simp: parseImp_loop.psimps[OF 8(1)] eat_Inr_iff genId_def
        split: option.splits token.splits sum.splits prod.splits if_splits)
next
  case (9 ts c)
  from 9(2,3) show ?case
    by (fastforce simp: parseBicond.psimps[OF 9(1)] eat_Inr_iff genId_def
        split: option.splits token.splits sum.splits prod.splits if_splits)
next
  case (10 node ts c)
  from 10(2,3) show ?case
    by (fastforce simp: parseBicond_loop.psimps[OF 10(1)] eat_Inr_iff genId_def
        split: option.splits token.splits sum.splits prod.splits if_splits)
qed

termination parsePrimary
  apply (relation "inv_image (less_than <*lex*> less_than)
     (case_sum
        (case_sum
           (case_sum (\<lambda>(ts, c). (length ts, 0::nat)) (\<lambda>(ts, c). (length ts, 1)))
           (case_sum (\<lambda>(ts, c). (length ts, 2))
              (case_sum (\<lambda>(node, ts, c). (length ts, 0)) (\<lambda>(ts, c). (length ts, 3)))))
        (case_sum
           (case_sum (\<lambda>(node, ts, c). (length ts, 0)) (\<lambda>(ts, c). (length ts, 4)))
           (case_sum (\<lambda>(node, ts, c). (length ts, 0))
              (case_sum (\<lambda>(ts, c). (length ts, 5)) (\<lambda>(node, ts, c). (length ts, 0))))))")
  apply (auto simp: eat_Inr_iff dest: parse_progress_partial)
  done

declare parsePrimary.simps [simp del] parseUnary.simps [simp del]
  parseAnd.simps [simp del] parseAnd_loop.simps [simp del]
  parseOr.simps [simp del] parseOr_loop.simps [simp del]
  parseImp.simps [simp del] parseImp_loop.simps [simp del]
  parseBicond.simps [simp del] parseBicond_loop.simps [simp del]

text \<open>
  \<open>parseFormula\<close> sets the global counter to 0, tokenizes, parses a biconditional level
  and throws when tokens are left over. The value it leaves in the counter is read by
  nothing but the generator of random formulas, which takes the counter as an argument.
\<close>

definition parseFormula :: "jsstring \<Rightarrow> error + FormulaNode" where
  "parseFormula input =
     (case tokenize input of
        Inl e \<Rightarrow> Inl e
      | Inr tokens \<Rightarrow>
          (case parseBicond tokens 0 of
             Inl e \<Rightarrow> Inl e
           | Inr (rootNode, rest, c) \<Rightarrow>
               if rest \<noteq> [] then Inl ExtraTokensAtEnd else Inr rootNode))"

section \<open>Evaluation\<close>

text \<open>
  An assignment is an object whose own properties are the atoms; reading a name that it
  does not have gives \<open>undefined\<close>. A value of \<open>evalNode\<close> is therefore a boolean or
  \<open>undefined\<close> (\<open>None\<close>), and the operators are JavaScript's: \<open>!\<close> negates the
  truthiness, \<open>&&\<close> and \<open>||\<close> return one of their operands, \<open>===\<close> compares.
\<close>

type_synonym Assignment = "jsstring \<rightharpoonup> bool"

type_synonym jsvalue = "bool option"

definition truthy :: "jsvalue \<Rightarrow> bool" where
  "truthy v = (case v of None \<Rightarrow> False | Some b \<Rightarrow> b)"

definition js_not :: "jsvalue \<Rightarrow> jsvalue" where
  "js_not v = Some (\<not> truthy v)"

definition js_and :: "jsvalue \<Rightarrow> jsvalue \<Rightarrow> jsvalue" where
  "js_and l r = (if truthy l then r else l)"

definition js_or :: "jsvalue \<Rightarrow> jsvalue \<Rightarrow> jsvalue" where
  "js_or l r = (if truthy l then l else r)"

definition js_strict_eq :: "jsvalue \<Rightarrow> jsvalue \<Rightarrow> jsvalue" where
  "js_strict_eq l r = Some (l = r)"

fun evalNode :: "FormulaNode \<Rightarrow> Assignment \<Rightarrow> jsvalue" where
  "evalNode (Var i name) asg = asg name"
| "evalNode (Unary i child) asg = js_not (evalNode child asg)"
| "evalNode (Binary i op left right) asg =
     (let l = evalNode left asg; r = evalNode right asg in
      case op of
        OpAND \<Rightarrow> js_and l r
      | OpOR \<Rightarrow> js_or l r
      | OpIMP \<Rightarrow> js_or (js_not l) r
      | OpBICOND \<Rightarrow> js_strict_eq l r)"

section \<open>The rows of the truth table\<close>

text \<open>
  \<open>1 << k\<close> and \<open>a & b\<close> work on 32-bit integers: the shift count is taken modulo 32
  and the result is read as a signed 32-bit value.
\<close>

definition js_shl1 :: "nat \<Rightarrow> int" where
  "js_shl1 k = sint (push_bit (k mod 32) (1 :: 32 word))"

definition js_bitand :: "int \<Rightarrow> int \<Rightarrow> int" where
  "js_bitand a b = sint (and (word_of_int a :: 32 word) (word_of_int b))"

text \<open>The body of \<open>atoms.forEach\<close> from index \<open>i\<close> on, for one value \<open>mk\<close> of \<open>mask\<close>.\<close>

fun fill_row :: "jsstring list \<Rightarrow> nat \<Rightarrow> nat \<Rightarrow> int \<Rightarrow> Assignment \<Rightarrow> Assignment" where
  "fill_row [] i n mk asg = asg"
| "fill_row (atom # rest) i n mk asg =
     (let bitPos = n - 1 - i in
      fill_row rest (i + 1) n mk (asg(atom \<mapsto> js_bitand mk (js_shl1 bitPos) \<noteq> 0)))"

function rows_loop :: "jsstring list \<Rightarrow> int \<Rightarrow> Assignment list \<Rightarrow> Assignment list" where
  "rows_loop atoms mk rows =
     (if mk \<ge> 0
      then rows_loop atoms (mk - 1) (rows @ [fill_row atoms 0 (length atoms) mk Map.empty])
      else rows)"
  by pat_completeness auto
termination
  by (relation "measure (\<lambda>(atoms, mk, rows). nat (mk + 1))") auto

declare rows_loop.simps [simp del]

definition allAssignments :: "jsstring list \<Rightarrow> Assignment list" where
  "allAssignments atoms =
     (let n = length atoms; total = js_shl1 n in rows_loop atoms (total - 1) [])"

section \<open>Printers\<close>

fun formulaToAscii :: "FormulaNode \<Rightarrow> jsstring" where
  "formulaToAscii (Var i name) = name"
| "formulaToAscii (Unary i child) = ascii ''~'' @ formulaToAscii child"
| "formulaToAscii (Binary i op left right) =
     (let opStr = (case op of
                     OpAND \<Rightarrow> ascii ''&''
                   | OpOR \<Rightarrow> ascii ''v''
                   | OpIMP \<Rightarrow> ascii ''->''
                   | OpBICOND \<Rightarrow> ascii ''<->'')
      in ascii ''('' @ formulaToAscii left @ ascii '' '' @ opStr @ ascii '' ''
           @ formulaToAscii right @ ascii '')'')"

fun formulaToUnicode :: "FormulaNode \<Rightarrow> jsstring" where
  "formulaToUnicode (Var i name) = name"
| "formulaToUnicode (Unary i child) = [u_not] @ formulaToUnicode child"
| "formulaToUnicode (Binary i op left right) =
     (let opStr = (case op of
                     OpAND \<Rightarrow> [u_and]
                   | OpOR \<Rightarrow> [u_or]
                   | OpIMP \<Rightarrow> [u_imp]
                   | OpBICOND \<Rightarrow> [u_iff])
      in ascii ''('' @ formulaToUnicode left @ ascii '' '' @ opStr @ ascii '' ''
           @ formulaToUnicode right @ ascii '')'')"

section \<open>Subformulas\<close>

text \<open>\<open>acc\<close> is the array the calls push to; the function returns it.\<close>

fun collectSubformulas :: "FormulaNode \<Rightarrow> FormulaNode list \<Rightarrow> FormulaNode list" where
  "collectSubformulas (Var i name) acc = acc"
| "collectSubformulas (Unary i child) acc =
     (let acc1 = collectSubformulas child acc in acc1 @ [Unary i child])"
| "collectSubformulas (Binary i op left right) acc =
     (let acc1 = collectSubformulas left acc;
          acc2 = collectSubformulas right acc1
      in acc2 @ [Binary i op left right])"

section \<open>Random formulas\<close>

text \<open>
  \<open>Math.random()\<close> is an oracle: \<open>rnd k\<close> is the value of its \<open>k\<close>-th call, a number
  that the language promises to lie in \<open>[0, 1)\<close>. The functions take \<open>rnd\<close>, the number
  of calls made so far and the identity counter, and return the counts they leave.
  Reading an array outside its bounds gives \<open>undefined\<close>, which is no string and no
  operator: the model returns \<open>None\<close> there.
\<close>

text \<open>
  The source compares with the literal \<open>0.3\<close>; the model compares with the real number
  three tenths. No property below depends on where the threshold lies.
\<close>

definition ATOM_POOL :: "jsstring list" where
  "ATOM_POOL = [ascii ''P'', ascii ''Q'', ascii ''R'', ascii ''S'']"

definition randInt :: "int \<Rightarrow> int \<Rightarrow> real \<Rightarrow> int" where
  "randInt lo hi r = \<lfloor>r * of_int (hi - lo + 1)\<rfloor> + lo"

definition array_get :: "'a list \<Rightarrow> int \<Rightarrow> 'a option" where
  "array_get xs i = (if 0 \<le> i \<and> i < int (length xs) then Some (xs ! nat i) else None)"

definition randomAtom :: "jsstring list \<Rightarrow> (nat \<Rightarrow> real) \<Rightarrow> nat \<Rightarrow> jsstring option \<times> nat" where
  "randomAtom atoms rnd k = (array_get atoms (randInt 0 (int (length atoms) - 1) (rnd k)), k + 1)"

definition randomBinaryOp :: "(nat \<Rightarrow> real) \<Rightarrow> nat \<Rightarrow> binop option \<times> nat" where
  "randomBinaryOp rnd k =
     (let ops = [OpAND, OpOR, OpIMP, OpBICOND]
      in (array_get ops (randInt 0 (int (length ops) - 1) (rnd k)), k + 1))"

function generateRandomFormulaAST ::
  "int \<Rightarrow> jsstring list \<Rightarrow> (nat \<Rightarrow> real) \<Rightarrow> nat \<Rightarrow> nat \<Rightarrow> (FormulaNode \<times> nat \<times> nat) option"
where
  "generateRandomFormulaAST maxDepth atoms rnd k c =
     (if maxDepth \<le> 0 then
        (case genId c of (i, c1) \<Rightarrow>
           (case randomAtom atoms rnd k of
              (None, k1) \<Rightarrow> None
            | (Some name, k1) \<Rightarrow> Some (Var i name, k1, c1)))
      else
        (let chooseUnary = (rnd k < 3 / 10) in
         if chooseUnary then
           (case generateRandomFormulaAST (maxDepth - 1) atoms rnd (k + 1) c of
              None \<Rightarrow> None
            | Some (child, k1, c1) \<Rightarrow>
                (case genId c1 of (i, c2) \<Rightarrow> Some (Unary i child, k1, c2)))
         else
           (case generateRandomFormulaAST (maxDepth - 1) atoms rnd (k + 1) c of
              None \<Rightarrow> None
            | Some (left, k1, c1) \<Rightarrow>
                (case generateRandomFormulaAST (maxDepth - 1) atoms rnd k1 c1 of
                   None \<Rightarrow> None
                 | Some (right, k2, c2) \<Rightarrow>
                     (case randomBinaryOp rnd k2 of
                        (None, k3) \<Rightarrow> None
                      | (Some op, k3) \<Rightarrow>
                          (case genId c2 of (i, c3) \<Rightarrow>
                             Some (Binary i op left right, k3, c3)))))))"
  by pat_completeness auto
termination
  by (relation "measure (\<lambda>(maxDepth, atoms, rnd, k, c). nat maxDepth)") auto

declare generateRandomFormulaAST.simps [simp del]

text \<open>\<open>xs.slice(0, n)\<close>: a negative \<open>n\<close> counts from the end of the array.\<close>

definition slice0 :: "'a list \<Rightarrow> int \<Rightarrow> 'a list" where
  "slice0 xs n = (if n < 0 then take (nat (int (length xs) + n)) xs else take (nat n) xs)"

definition generateRandomFormulaString ::
  "(nat \<Rightarrow> real) \<Rightarrow> nat \<Rightarrow> nat \<Rightarrow> (jsstring \<times> nat \<times> nat) option"
where
  "generateRandomFormulaString rnd k c =
     (let numAtoms = randInt 2 3 (rnd k);
          atoms = slice0 ATOM_POOL numAtoms;
          depth = randInt 1 3 (rnd (k + 1))
      in case generateRandomFormulaAST depth atoms rnd (k + 2) c of
           None \<Rightarrow> None
         | Some (ast, k1, c1) \<Rightarrow> Some (formulaToUnicode ast, k1, c1))"

section \<open>Loading a formula\<close>

definition DEFAULT_FORMULA :: jsstring where
  "DEFAULT_FORMULA =
     ascii ''(P '' @ [u_and] @ ascii '' Q) '' @ [u_imp] @ ascii '' '' @ [u_not] @ ascii ''R''"

text \<open>
  The units that the class \<open>\s\<close> of a regular expression matches: tab, line feed,
  vertical tab, form feed, carriage return, space, U+00A0, U+1680, U+2000 to U+200A,
  U+2028, U+2029, U+202F, U+205F, U+3000 and U+FEFF.
\<close>

definition is_js_whitespace :: "nat \<Rightarrow> bool" where
  "is_js_whitespace c =
     (c \<in> {9, 10, 11, 12, 13, 32, 160, 5760, 8232, 8233, 8239, 8287, 12288, 65279}
      \<or> (8192 \<le> c \<and> c \<le> 8202))"

text \<open>
  \<open>s.replace(/[...]/g, r)\<close> for a class of single units: every unit of the class becomes
  \<open>r\<close>. Replacing every run \<open>\s+\<close> by the empty string removes every white unit.
\<close>

definition replace_units :: "(nat \<Rightarrow> bool) \<Rightarrow> jsstring \<Rightarrow> jsstring \<Rightarrow> jsstring" where
  "replace_units matches r s = concat (map (\<lambda>c. if matches c then r else [c]) s)"

definition normalizeForGrammar :: "jsstring \<Rightarrow> jsstring" where
  "normalizeForGrammar s =
     replace_units (\<lambda>c. c = u_iff) (ascii ''<->'')
       (replace_units (\<lambda>c. c = u_imp) (ascii ''->'')
          (replace_units (\<lambda>c. c = u_or \<or> c = ch_v \<or> c = ch_V) (ascii ''v'')
             (replace_units (\<lambda>c. c = u_and \<or> c = ch_amp) (ascii ''&'')
                (replace_units (\<lambda>c. c = u_not) (ascii ''~'')
                   (replace_units is_js_whitespace [] s)))))"

text \<open>
  The part of the component's state that \<open>loadFormula\<close> decides: the parsed tree
  (\<open>root\<close> in the source), the parse error, the warning and the text of the input
  field. On a parse error the source also empties the table (guesses, feedback, column
  status, active column, summary), which is left out here.
\<close>

record app_state =
  rootNode :: "FormulaNode option"
  parseError :: "error option"
  grammarWarning :: "jsstring option"
  formulaStr :: jsstring

definition UNGRAMMATICAL :: jsstring where
  "UNGRAMMATICAL = ascii ''THIS IS UNGRAMMATICAL. I AM FIXING IT.''"

definition loadFormula :: "jsstring \<Rightarrow> app_state \<Rightarrow> app_state" where
  "loadFormula str st =
     (let st1 = st\<lparr>grammarWarning := None\<rparr> in
      case parseFormula str of
        Inr ast \<Rightarrow>
          (let canonicalAscii = formulaToAscii ast;
               inputNorm = normalizeForGrammar str;
               canonicalNorm = normalizeForGrammar canonicalAscii
           in st1\<lparr>rootNode := Some ast, parseError := None,
                  grammarWarning := (if inputNorm \<noteq> canonicalNorm then Some UNGRAMMATICAL else None),
                  formulaStr := formulaToUnicode ast\<rparr>)
      | Inl e \<Rightarrow> st1\<lparr>rootNode := None, parseError := Some e\<rparr>)"

chapter \<open>Notions used to state the properties\<close>

section \<open>Structural equality\<close>

text \<open>
  Two trees are structurally equal when they differ at most in the identities of their
  nodes: \<open>forget_ids\<close> sets every identity to 0.
\<close>

fun forget_ids :: "FormulaNode \<Rightarrow> FormulaNode" where
  "forget_ids (Var i name) = Var 0 name"
| "forget_ids (Unary i child) = Unary 0 (forget_ids child)"
| "forget_ids (Binary i op left right) = Binary 0 op (forget_ids left) (forget_ids right)"

definition structurally_equal :: "FormulaNode \<Rightarrow> FormulaNode \<Rightarrow> bool" where
  "structurally_equal a b = (forget_ids a = forget_ids b)"

text \<open>The two ways to read an implication of three variables.\<close>

definition imp_left_tree :: FormulaNode where
  "imp_left_tree =
     Binary 4 OpIMP (Binary 2 OpIMP (Var 0 (ascii ''P'')) (Var 1 (ascii ''Q'')))
       (Var 3 (ascii ''R''))"

definition imp_right_tree :: FormulaNode where
  "imp_right_tree =
     Binary 4 OpIMP (Var 0 (ascii ''P''))
       (Binary 3 OpIMP (Var 1 (ascii ''Q'')) (Var 2 (ascii ''R'')))"

section \<open>Truth values\<close>

text \<open>The names of the variables of a tree, and the truth value of a tree under a valuation.\<close>

fun vars :: "FormulaNode \<Rightarrow> jsstring set" where
  "vars (Var i name) = {name}"
| "vars (Unary i child) = vars child"
| "vars (Binary i op left right) = vars left \<union> vars right"

fun truth_value :: "FormulaNode \<Rightarrow> (jsstring \<Rightarrow> bool) \<Rightarrow> bool" where
  "truth_value (Var i name) v = v name"
| "truth_value (Unary i child) v = (\<not> truth_value child v)"
| "truth_value (Binary i OpAND left right) v = (truth_value left v \<and> truth_value right v)"
| "truth_value (Binary i OpOR left right) v = (truth_value left v \<or> truth_value right v)"
| "truth_value (Binary i OpIMP left right) v = (\<not> truth_value left v \<or> truth_value right v)"
| "truth_value (Binary i OpBICOND left right) v = (truth_value left v = truth_value right v)"

definition default_tree :: FormulaNode where
  "default_tree =
     Binary 5 OpIMP (Binary 2 OpAND (Var 0 (ascii ''P'')) (Var 1 (ascii ''Q'')))
       (Unary 4 (Var 3 (ascii ''R'')))"

section \<open>Normal forms\<close>

text \<open>
  The normal form as the specification words it: white space is dropped and every
  spelling of a connective becomes one ASCII spelling, unit by unit.
\<close>

definition canonical_symbol :: "nat \<Rightarrow> jsstring" where
  "canonical_symbol c =
     (if is_js_whitespace c then []
      else if c = u_not then ascii ''~''
      else if c = u_and \<or> c = ch_amp then ascii ''&''
      else if c = u_or \<or> c = ch_v \<or> c = ch_V then ascii ''v''
      else if c = u_imp then ascii ''->''
      else if c = u_iff then ascii ''<->''
      else [c])"

definition normalize_spec :: "jsstring \<Rightarrow> jsstring" where
  "normalize_spec s = concat (map canonical_symbol s)"

definition initial_state :: app_state where
  "initial_state =
     \<lparr>rootNode = None, parseError = None, grammarWarning = None,
      formulaStr = DEFAULT_FORMULA\<rparr>"

definition and_or_tree :: FormulaNode where
  "and_or_tree =
     Binary 4 OpOR (Binary 2 OpAND (Var 0 (ascii ''P'')) (Var 1 (ascii ''Q'')))
       (Var 3 (ascii ''R''))"

section \<open>Nodes of a tree\<close>

fun isVar :: "FormulaNode \<Rightarrow> bool" where
  "isVar (Var i name) = True"
| "isVar (Unary i child) = False"
| "isVar (Binary i op left right) = False"

fun nodes :: "FormulaNode \<Rightarrow> FormulaNode list" where
  "nodes (Var i name) = [Var i name]"
| "nodes (Unary i child) = Unary i child # nodes child"
| "nodes (Binary i op left right) = Binary i op left right # nodes left @ nodes right"

fun count_unary :: "FormulaNode \<Rightarrow> nat" where
  "count_unary (Var i name) = 0"
| "count_unary (Unary i child) = 1 + count_unary child"
| "count_unary (Binary i op left right) = count_unary left + count_unary right"

fun count_binary :: "FormulaNode \<Rightarrow> nat" where
  "count_binary (Var i name) = 0"
| "count_binary (Unary i child) = count_binary child"
| "count_binary (Binary i op left right) = 1 + count_binary left + count_binary right"

definition count_nonatomic :: "FormulaNode \<Rightarrow> nat" where
  "count_nonatomic t = count_unary t + count_binary t"

text \<open>
  \<open>children_before xs k\<close>: the children of the node at index \<open>k\<close> of \<open>xs\<close> that are
  not variables stand before it, the right child (or the only child) at index \<open>k - 1\<close>
  and the left child before the whole subtree of the right one.
\<close>

definition children_before :: "FormulaNode list \<Rightarrow> nat \<Rightarrow> bool" where
  "children_before xs k =
     (case xs ! k of
        Var i name \<Rightarrow> True
      | Unary i child \<Rightarrow>
          isVar child \<or> (0 < k \<and> xs ! (k - 1) = child)
      | Binary i op left right \<Rightarrow>
          (isVar right \<or> (0 < k \<and> xs ! (k - 1) = right))
          \<and> (isVar left \<or> (count_nonatomic right < k \<and> xs ! (k - 1 - count_nonatomic right) = left)))"

section \<open>Atom names and the tokens of a print\<close>

text \<open>
  An atom name is one upper-case ASCII letter. \<open>tokens_of\<close> lists the tokens of the
  fully parenthesised print of a tree.
\<close>

definition is_atom_name :: "jsstring \<Rightarrow> bool" where
  "is_atom_name name = (case name of [c] \<Rightarrow> ch_A \<le> c \<and> c \<le> ch_Z | _ \<Rightarrow> False)"

fun names_ok :: "FormulaNode \<Rightarrow> bool" where
  "names_ok (Var i name) = is_atom_name name"
| "names_ok (Unary i child) = names_ok child"
| "names_ok (Binary i op left right) = (names_ok left \<and> names_ok right)"

fun token_ok :: "token \<Rightarrow> bool" where
  "token_ok (VAR name) = is_atom_name name"
| "token_ok t = True"

fun op_token :: "binop \<Rightarrow> token" where
  "op_token OpAND = AND"
| "op_token OpOR = OR"
| "op_token OpIMP = IMP"
| "op_token OpBICOND = BICOND"

fun tokens_of :: "FormulaNode \<Rightarrow> token list" where
  "tokens_of (Var i name) = [VAR name]"
| "tokens_of (Unary i child) = NOT # tokens_of child"
| "tokens_of (Binary i op left right) =
     LPAREN # tokens_of left @ op_token op # tokens_of right @ [RPAREN]"

section \<open>A sample of random values\<close>

definition sample_rnd :: "nat \<Rightarrow> real" where
  "sample_rnd j = (if j = 2 then 1 / 2 else if j = 4 then 3 / 4 else 1 / 4)"

section \<open>Rows as binary numbers\<close>

text \<open>
  \<open>row_of atoms mk\<close> is the row that the loop builds for the value \<open>mk\<close> of \<open>mask\<close>.
  \<open>row_value atoms asg\<close> is the binary number in which atom \<open>i\<close> of \<open>n\<close> atoms has the
  bit position \<open>n - 1 - i\<close>, the first atom being the most significant bit.
\<close>

definition row_of :: "jsstring list \<Rightarrow> int \<Rightarrow> Assignment" where
  "row_of atoms mk = fill_row atoms 0 (length atoms) mk Map.empty"

definition row_value :: "jsstring list \<Rightarrow> Assignment \<Rightarrow> int" where
  "row_value atoms asg =
     (\<Sum>i \<leftarrow> [0..<length atoms].
        if asg (atoms ! i) = Some True then 2 ^ (length atoms - 1 - i) else 0)"

section \<open>Chains of implications\<close>

text \<open>
  A chain is a first operand and a list of further operands. \<open>imp_chain_ascii\<close> writes
  the operands, each printed by the ASCII printer, with an arrow between neighbours;
  \<open>imp_chain_tokens\<close> lists the tokens after the first operand; \<open>imp_chain_left\<close> is the
  tree of the chain nested to the left, every implication having all earlier operands
  as its left side.
\<close>

definition imp_chain_left :: "FormulaNode \<Rightarrow> FormulaNode list \<Rightarrow> FormulaNode" where
  "imp_chain_left t0 ts = foldl (\<lambda>acc t. Binary 0 OpIMP acc t) t0 ts"

definition imp_chain_ascii :: "FormulaNode \<Rightarrow> FormulaNode list \<Rightarrow> jsstring" where
  "imp_chain_ascii t0 ts =
     formulaToAscii t0 @ concat (map (\<lambda>t. ascii '' -> '' @ formulaToAscii t) ts)"

definition chain_first :: FormulaNode where
  "chain_first = Unary 0 (Var 0 (ascii ''A''))"

definition chain_rest :: "FormulaNode list" where
  "chain_rest =
     [Binary 0 OpAND (Var 0 (ascii ''B'')) (Var 0 (ascii ''C'')), Var 0 (ascii ''D'')]"

definition imp_chain_tokens :: "FormulaNode list \<Rightarrow> token list" where
  "imp_chain_tokens ts = concat (map (\<lambda>t. IMP # tokens_of t) ts)"

chapter \<open>Lemmas\<close>

section \<open>Rules for running the program on a given input\<close>

lemmas parse_simps =
  parsePrimary.simps parseUnary.simps parseAnd.simps parseAnd_loop.simps
  parseOr.simps parseOr_loop.simps parseImp.simps parseImp_loop.simps
  parseBicond.simps parseBicond_loop.simps next_is_def next_tok_def eat_def genId_def

lemmas run_simps = parseFormula_def tokenize_def ascii_def parse_simps

lemmas js_simps = truthy_def js_not_def js_and_def js_or_def js_strict_eq_def

section \<open>Evaluation agrees with the truth value\<close>

lemma evalNode_agrees:
  fixes asg :: Assignment and v :: "jsstring \<Rightarrow> bool"
  shows "(\<forall>x \<in> vars node. asg x = Some (v x)) \<Longrightarrow> evalNode node asg = Some (truth_value node v)"
proof (induction node)
  case (Var i name)
  then show ?case by simp
next
  case (Unary i child)
  then show ?case by (simp add: js_simps)
next
  case (Binary i op left right)
  then have l: "evalNode left asg = Some (truth_value left v)"
    and r: "evalNode right asg = Some (truth_value right v)"
    by simp_all
  show ?case
    by (cases op) (auto simp: l r js_simps)
qed

section \<open>The normal form of a string\<close>

lemma replace_units_append:
  "replace_units p r (a @ b) = replace_units p r a @ replace_units p r b"
  by (simp add: replace_units_def)

lemma replace_units_Nil: "replace_units p r [] = []"
  by (simp add: replace_units_def)

lemma normalizeForGrammar_append:
  "normalizeForGrammar (a @ b) = normalizeForGrammar a @ normalizeForGrammar b"
  by (simp add: normalizeForGrammar_def replace_units_append)

lemma normalizeForGrammar_Nil: "normalizeForGrammar [] = []"
  by (simp add: normalizeForGrammar_def replace_units_Nil)

lemma normalizeForGrammar_unit: "normalizeForGrammar [c] = canonical_symbol c"
  by (simp add: normalizeForGrammar_def replace_units_def canonical_symbol_def
      is_js_whitespace_def ascii_def)

lemma normalizeForGrammar_Cons:
  "normalizeForGrammar (c # s) = canonical_symbol c @ normalizeForGrammar s"
  using normalizeForGrammar_append [of "[c]" s] by (simp add: normalizeForGrammar_unit)

lemma normalizeForGrammar_eq_spec: "normalizeForGrammar s = normalize_spec s"
  by (induction s)
    (simp_all add: normalizeForGrammar_Nil normalizeForGrammar_Cons normalize_spec_def)

lemmas normalize_simps =
  normalizeForGrammar_append normalizeForGrammar_Cons normalizeForGrammar_Nil
  canonical_symbol_def is_js_whitespace_def ascii_def

lemma grammarWarning_loadFormula_ok:
  "parseFormula str = Inr ast \<Longrightarrow>
     grammarWarning (loadFormula str st)
       = (if normalizeForGrammar str \<noteq> normalizeForGrammar (formulaToAscii ast)
          then Some UNGRAMMATICAL else None)"
  by (simp add: loadFormula_def Let_def)

lemma grammarWarning_loadFormula_error:
  "parseFormula str = Inl e \<Longrightarrow> grammarWarning (loadFormula str st) = None"
  by (simp add: loadFormula_def Let_def)

section \<open>The list of subformulas\<close>

lemma collect_acc: "collectSubformulas t acc = acc @ collectSubformulas t []"
proof (induction t arbitrary: acc)
  case (Var i name)
  show ?case by simp
next
  case (Unary i child)
  show ?case using Unary [of acc] by simp
next
  case (Binary i op left right)
  have "collectSubformulas right (collectSubformulas left acc)
          = acc @ collectSubformulas left [] @ collectSubformulas right []"
    using Binary(1) [of acc] Binary(2) [of "collectSubformulas left acc"] by simp
  moreover have "collectSubformulas right (collectSubformulas left [])
          = collectSubformulas left [] @ collectSubformulas right []"
    using Binary(2) [of "collectSubformulas left []"] by simp
  ultimately show ?case by simp
qed

lemma collect_Unary:
  "collectSubformulas (Unary i child) [] = collectSubformulas child [] @ [Unary i child]"
  by simp

lemma collect_Binary:
  "collectSubformulas (Binary i op left right) []
     = collectSubformulas left [] @ collectSubformulas right [] @ [Binary i op left right]"
  using collect_acc [of right "collectSubformulas left []"] by simp

lemma collect_length: "length (collectSubformulas t []) = count_nonatomic t"
  by (induction t) (simp_all add: collect_Binary count_nonatomic_def del: collectSubformulas.simps(3))

lemma collect_no_Var: "n \<in> set (collectSubformulas t []) \<Longrightarrow> \<not> isVar n"
  by (induction t) (auto simp: collect_Binary simp del: collectSubformulas.simps(3))

lemma collect_mset:
  "mset (collectSubformulas t []) = mset (filter (\<lambda>n. \<not> isVar n) (nodes t))"
  by (induction t) (simp_all add: collect_Binary del: collectSubformulas.simps(3))

lemma collect_last:
  "\<not> isVar t \<Longrightarrow> collectSubformulas t [] \<noteq> [] \<and> last (collectSubformulas t []) = t"
  by (cases t) (simp_all add: collect_Binary del: collectSubformulas.simps(3))


lemma children_before_prefix:
  "k < length xs \<Longrightarrow> children_before (xs @ ys) k = children_before xs k"
  by (auto simp: children_before_def nth_append split: FormulaNode.splits)

lemma children_before_shift:
  assumes "k < length ys" "children_before ys k"
  shows "children_before (xs @ ys) (length xs + k)"
proof -
  have b: "(xs @ ys) ! (length xs + k - Suc m) = ys ! (k - Suc m)" if "m < k" for m
  proof -
    have "length xs + k - Suc m = length xs + (k - Suc m)" using that by simp
    then show ?thesis by (simp only: nth_append_length_plus)
  qed
  from assms(2) show ?thesis
    by (auto simp: children_before_def b split: FormulaNode.splits)
qed

lemma nth_last_of_prefix:
  "xs \<noteq> [] \<Longrightarrow> (xs @ ys) ! (length xs - 1) = last xs"
  by (simp add: nth_append last_conv_nth)

lemma collect_children_before:
  "k < length (collectSubformulas t []) \<Longrightarrow> children_before (collectSubformulas t []) k"
proof (induction t arbitrary: k)
  case (Var i name)
  then show ?case by simp
next
  case (Unary i child)
  let ?c = "collectSubformulas child []"
  have eq: "collectSubformulas (Unary i child) [] = ?c @ [Unary i child]"
    by (rule collect_Unary)
  show ?case
  proof (cases "k < length ?c")
    case True
    then show ?thesis
      unfolding eq using Unary.IH [of k] by (simp add: children_before_prefix)
  next
    case False
    with Unary.prems have k: "k = length ?c" by simp
    have "isVar child \<or> (0 < k \<and> (?c @ [Unary i child]) ! (k - 1) = child)"
    proof (cases "isVar child")
      case True
      then show ?thesis by simp
    next
      case False
      then have "?c \<noteq> []" "last ?c = child" using collect_last by blast+
      then show ?thesis using nth_last_of_prefix [of ?c "[Unary i child]"] k by simp
    qed
    then show ?thesis unfolding eq by (simp add: children_before_def k)
  qed
next
  case (Binary i op left right)
  let ?l = "collectSubformulas left []"
  let ?r = "collectSubformulas right []"
  let ?b = "Binary i op left right"
  have eq: "collectSubformulas ?b [] = ?l @ ?r @ [?b]"
    by (rule collect_Binary)
  have len: "length ?r = count_nonatomic right"
    by (rule collect_length)
  consider (left) "k < length ?l"
    | (right) "length ?l \<le> k" "k < length ?l + length ?r"
    | (top) "k = length ?l + length ?r"
    using Binary.prems unfolding eq by force
  then show ?case
  proof cases
    case left
    then show ?thesis
      unfolding eq using Binary.IH(1) [of k] by (simp add: children_before_prefix)
  next
    case right
    define j where "j = k - length ?l"
    have j: "j < length ?r" "k = length ?l + j" using right by (simp_all add: j_def)
    have "children_before (?r @ [?b]) j"
      using Binary.IH(2) [of j] j(1) by (simp add: children_before_prefix)
    then have "children_before (?l @ (?r @ [?b])) (length ?l + j)"
      using j(1) by (intro children_before_shift) simp_all
    then show ?thesis unfolding eq j(2) by simp
  next
    case top
    have r: "isVar right \<or> (0 < k \<and> (?l @ ?r @ [?b]) ! (k - 1) = right)"
    proof (cases "isVar right")
      case True
      then show ?thesis by simp
    next
      case False
      then have "?r \<noteq> []" "last ?r = right" using collect_last by blast+
      then show ?thesis
        using nth_last_of_prefix [of "?l @ ?r" "[?b]"] top by simp
    qed
    have l: "isVar left \<or> (count_nonatomic right < k
               \<and> (?l @ ?r @ [?b]) ! (k - 1 - count_nonatomic right) = left)"
    proof (cases "isVar left")
      case True
      then show ?thesis by simp
    next
      case False
      then have ne: "?l \<noteq> []" and la: "last ?l = left" using collect_last by blast+
      have "k - 1 - count_nonatomic right = length ?l - 1"
        using top len by simp
      moreover have "count_nonatomic right < k" using top len ne by simp
      ultimately show ?thesis
        using nth_last_of_prefix [of ?l "?r @ [?b]"] ne la by simp
    qed
    have "(?l @ ?r @ [?b]) ! k = ?b"
      using top by (simp add: nth_append)
    then show ?thesis unfolding eq using r l by (simp add: children_before_def)
  qed
qed

section \<open>Tokenizing a print\<close>

lemma tokenize_loop_ascii:
  "names_ok t \<Longrightarrow>
     tokenize_loop (formulaToAscii t @ rest) acc = tokenize_loop rest (acc @ tokens_of t)"
proof (induction t arbitrary: rest acc)
  case (Var i name)
  then show ?case
    by (auto simp: is_atom_name_def split: list.splits)
next
  case (Unary i child)
  then show ?case by (simp add: ascii_def)
next
  case (Binary i op left right)
  then have l: "\<And>rest acc. tokenize_loop (formulaToAscii left @ rest) acc
                  = tokenize_loop rest (acc @ tokens_of left)"
    and r: "\<And>rest acc. tokenize_loop (formulaToAscii right @ rest) acc
                  = tokenize_loop rest (acc @ tokens_of right)"
    by simp_all
  show ?case
    by (cases op) (simp_all add: ascii_def l r)
qed

lemma tokenize_loop_unicode:
  "names_ok t \<Longrightarrow>
     tokenize_loop (formulaToUnicode t @ rest) acc = tokenize_loop rest (acc @ tokens_of t)"
proof (induction t arbitrary: rest acc)
  case (Var i name)
  then show ?case
    by (auto simp: is_atom_name_def split: list.splits)
next
  case (Unary i child)
  then show ?case by (simp add: ascii_def)
next
  case (Binary i op left right)
  then have l: "\<And>rest acc. tokenize_loop (formulaToUnicode left @ rest) acc
                  = tokenize_loop rest (acc @ tokens_of left)"
    and r: "\<And>rest acc. tokenize_loop (formulaToUnicode right @ rest) acc
                  = tokenize_loop rest (acc @ tokens_of right)"
    by simp_all
  show ?case
    by (cases op) (simp_all add: ascii_def l r)
qed

lemma tokenize_formulaToAscii: "names_ok t \<Longrightarrow> tokenize (formulaToAscii t) = Inr (tokens_of t)"
  using tokenize_loop_ascii [of t "[]" "[]"] by (simp add: tokenize_def)

lemma tokenize_formulaToUnicode: "names_ok t \<Longrightarrow> tokenize (formulaToUnicode t) = Inr (tokens_of t)"
  using tokenize_loop_unicode [of t "[]" "[]"] by (simp add: tokenize_def)


section \<open>Parsing the tokens of a print\<close>

lemmas level_simps =
  parseAnd.simps parseAnd_loop.simps parseOr.simps parseOr_loop.simps
  parseImp.simps parseImp_loop.simps parseBicond.simps parseBicond_loop.simps
  next_is_def next_tok_def eat_def genId_def

lemma parseUnary_VAR: "parseUnary (VAR name # ts) c = Inr (Var c name, ts, c + 1)"
  by (simp add: parseUnary.simps parsePrimary.simps next_is_def next_tok_def eat_def genId_def)

lemma parseUnary_NOT:
  "parseUnary ts c = Inr (n, r, c') \<Longrightarrow> parseUnary (NOT # ts) c = Inr (Unary c' n, r, c' + 1)"
  by (subst parseUnary.simps) (simp add: next_is_def next_tok_def eat_def genId_def)

lemma parseUnary_LPAREN:
  "parseBicond ts c = Inr (n, RPAREN # r, c') \<Longrightarrow> parseUnary (LPAREN # ts) c = Inr (n, r, c')"
  by (simp add: parseUnary.simps parsePrimary.simps next_is_def next_tok_def eat_def genId_def)

lemma parseBicond_AND:
  "parseUnary xs c = Inr (l, AND # ys, c1) \<Longrightarrow> parseUnary ys c1 = Inr (r, RPAREN # rest, c2)
     \<Longrightarrow> parseBicond xs c = Inr (Binary c2 OpAND l r, RPAREN # rest, c2 + 1)"
  by (simp add: level_simps)

lemma parseBicond_OR:
  "parseUnary xs c = Inr (l, OR # ys, c1) \<Longrightarrow> parseUnary ys c1 = Inr (r, RPAREN # rest, c2)
     \<Longrightarrow> parseBicond xs c = Inr (Binary c2 OpOR l r, RPAREN # rest, c2 + 1)"
  by (simp add: level_simps)

lemma parseBicond_IMP:
  "parseUnary xs c = Inr (l, IMP # ys, c1) \<Longrightarrow> parseUnary ys c1 = Inr (r, RPAREN # rest, c2)
     \<Longrightarrow> parseBicond xs c = Inr (Binary c2 OpIMP l r, RPAREN # rest, c2 + 1)"
  by (simp add: level_simps)

lemma parseBicond_BICOND:
  "parseUnary xs c = Inr (l, BICOND # ys, c1) \<Longrightarrow> parseUnary ys c1 = Inr (r, RPAREN # rest, c2)
     \<Longrightarrow> parseBicond xs c = Inr (Binary c2 OpBICOND l r, RPAREN # rest, c2 + 1)"
  by (simp add: level_simps)

lemma parseBicond_op:
  "parseUnary xs c = Inr (l, op_token op # ys, c1)
     \<Longrightarrow> parseUnary ys c1 = Inr (r, RPAREN # rest, c2)
     \<Longrightarrow> parseBicond xs c = Inr (Binary c2 op l r, RPAREN # rest, c2 + 1)"
  by (cases op) (simp_all add: parseBicond_AND parseBicond_OR parseBicond_IMP parseBicond_BICOND)

lemma parseBicond_all:
  "parseUnary xs c = Inr (n, [], c') \<Longrightarrow> parseBicond xs c = Inr (n, [], c')"
  by (simp add: level_simps)

lemma parseUnary_tokens_of:
  "\<exists>t' c'. parseUnary (tokens_of t @ rest) c = Inr (t', rest, c')
            \<and> forget_ids t' = forget_ids t"
proof (induction t arbitrary: rest c)
  case (Var i name)
  show ?case by (simp add: parseUnary_VAR)
next
  case (Unary i child)
  obtain t' c' where "parseUnary (tokens_of child @ rest) c = Inr (t', rest, c')"
    "forget_ids t' = forget_ids child"
    using Unary [of rest c] by blast
  then show ?case by (simp add: parseUnary_NOT)
next
  case (Binary i op left right)
  obtain l c1 where
    l: "parseUnary (tokens_of left @ op_token op # tokens_of right @ RPAREN # rest) c
          = Inr (l, op_token op # tokens_of right @ RPAREN # rest, c1)"
    "forget_ids l = forget_ids left"
    using Binary(1) [of "op_token op # tokens_of right @ RPAREN # rest" c] by blast
  obtain r c2 where
    r: "parseUnary (tokens_of right @ RPAREN # rest) c1 = Inr (r, RPAREN # rest, c2)"
    "forget_ids r = forget_ids right"
    using Binary(2) [of "RPAREN # rest" c1] by blast
  have "parseBicond (tokens_of left @ op_token op # tokens_of right @ RPAREN # rest) c
          = Inr (Binary c2 op l r, RPAREN # rest, c2 + 1)"
    using l(1) r(1) by (rule parseBicond_op)
  then have "parseUnary (LPAREN # tokens_of left @ op_token op # tokens_of right @ RPAREN # rest) c
          = Inr (Binary c2 op l r, rest, c2 + 1)"
    by (rule parseUnary_LPAREN)
  then show ?case using l(2) r(2) by simp
qed

lemma parseFormula_of_print:
  assumes "tokenize s = Inr (tokens_of t)"
  shows "\<exists>t'. parseFormula s = Inr t' \<and> forget_ids t' = forget_ids t"
proof -
  obtain t' c' where "parseUnary (tokens_of t) 0 = Inr (t', [], c')"
    "forget_ids t' = forget_ids t"
    using parseUnary_tokens_of [of t "[]" 0] by auto
  then show ?thesis
    using assms by (simp add: parseFormula_def parseBicond_all)
qed


section \<open>Parsed trees have atom names\<close>

lemma eat_tokens_ok:
  "eat expected ts = Inr (tok, rest) \<Longrightarrow> list_all token_ok ts \<Longrightarrow> list_all token_ok rest"
  by (auto simp: eat_Inr_iff)

lemma parse_names_ok:
  "\<forall>n r c'. parsePrimary ts c = Inr (n, r, c') \<longrightarrow> list_all token_ok ts
      \<longrightarrow> names_ok n \<and> list_all token_ok r"
  "\<forall>n r c'. parseUnary ts c = Inr (n, r, c') \<longrightarrow> list_all token_ok ts
      \<longrightarrow> names_ok n \<and> list_all token_ok r"
  "\<forall>n r c'. parseAnd ts c = Inr (n, r, c') \<longrightarrow> list_all token_ok ts
      \<longrightarrow> names_ok n \<and> list_all token_ok r"
  "\<forall>n r c'. parseAnd_loop node ts c = Inr (n, r, c') \<longrightarrow> list_all token_ok ts
      \<longrightarrow> names_ok node \<longrightarrow> names_ok n \<and> list_all token_ok r"
  "\<forall>n r c'. parseOr ts c = Inr (n, r, c') \<longrightarrow> list_all token_ok ts
      \<longrightarrow> names_ok n \<and> list_all token_ok r"
  "\<forall>n r c'. parseOr_loop node ts c = Inr (n, r, c') \<longrightarrow> list_all token_ok ts
      \<longrightarrow> names_ok node \<longrightarrow> names_ok n \<and> list_all token_ok r"
  "\<forall>n r c'. parseImp ts c = Inr (n, r, c') \<longrightarrow> list_all token_ok ts
      \<longrightarrow> names_ok n \<and> list_all token_ok r"
  "\<forall>n r c'. parseImp_loop node ts c = Inr (n, r, c') \<longrightarrow> list_all token_ok ts
      \<longrightarrow> names_ok node \<longrightarrow> names_ok n \<and> list_all token_ok r"
  "\<forall>n r c'. parseBicond ts c = Inr (n, r, c') \<longrightarrow> list_all token_ok ts
      \<longrightarrow> names_ok n \<and> list_all token_ok r"
  "\<forall>n r c'. parseBicond_loop node ts c = Inr (n, r, c') \<longrightarrow> list_all token_ok ts
      \<longrightarrow> names_ok node \<longrightarrow> names_ok n \<and> list_all token_ok r"
proof (induct rule: parsePrimary_parseUnary_parseAnd_parseAnd_loop_parseOr_parseOr_loop_parseImp_parseImp_loop_parseBicond_parseBicond_loop.induct)
  case (1 ts c)
  then show ?case
    by (fastforce simp: parsePrimary.simps [of ts c] eat_Inr_iff genId_def next_tok_def
        split: option.splits token.splits sum.splits prod.splits if_splits list.splits)
next
  case (2 ts c)
  then show ?case
    by (fastforce simp: parseUnary.simps [of ts c] eat_Inr_iff genId_def
        split: option.splits token.splits sum.splits prod.splits if_splits)
next
  case (3 ts c)
  then show ?case
    by (fastforce simp: parseAnd.simps [of ts c] eat_Inr_iff genId_def
        split: option.splits token.splits sum.splits prod.splits if_splits)
next
  case (4 node ts c)
  then show ?case
    by (fastforce simp: parseAnd_loop.simps [of node ts c] eat_Inr_iff genId_def
        split: option.splits token.splits sum.splits prod.splits if_splits)
next
  case (5 ts c)
  then show ?case
    by (fastforce simp: parseOr.simps [of ts c] eat_Inr_iff genId_def
        split: option.splits token.splits sum.splits prod.splits if_splits)
next
  case (6 node ts c)
  then show ?case
    by (fastforce simp: parseOr_loop.simps [of node ts c] eat_Inr_iff genId_def
        split: option.splits token.splits sum.splits prod.splits if_splits)
next
  case (7 ts c)
  then show ?case
    by (fastforce simp: parseImp.simps [of ts c] eat_Inr_iff genId_def
        split: option.splits token.splits sum.splits prod.splits if_splits)
next
  case (8 node ts c)
  then show ?case
    by (fastforce simp: parseImp_loop.simps [of node ts c] eat_Inr_iff genId_def
        split: option.splits token.splits sum.splits prod.splits if_splits)
next
  case (9 ts c)
  then show ?case
    by (fastforce simp: parseBicond.simps [of ts c] eat_Inr_iff genId_def
        split: option.splits token.splits sum.splits prod.splits if_splits)
next
  case (10 node ts c)
  then show ?case
    by (fastforce simp: parseBicond_loop.simps [of node ts c] eat_Inr_iff genId_def
        split: option.splits token.splits sum.splits prod.splits if_splits)
qed

lemma tokenize_loop_tokens_ok_aux:
  "list_all token_ok acc \<Longrightarrow>
     (case tokenize_loop s acc of Inl e \<Rightarrow> True | Inr ts \<Rightarrow> list_all token_ok ts)"
proof (induction s acc rule: tokenize_loop.induct)
  case (1 tokens)
  then show ?case by simp
next
  case (2 c cs tokens)
  have v: "ch_A \<le> c \<and> c \<le> ch_Z \<Longrightarrow> list_all token_ok (tokens @ [VAR [c]])"
    using "2.prems" by (simp add: is_atom_name_def)
  have o: "list_all token_ok (tokens @ [LPAREN])" "list_all token_ok (tokens @ [RPAREN])"
    "list_all token_ok (tokens @ [NOT])" "list_all token_ok (tokens @ [AND])"
    "list_all token_ok (tokens @ [OR])" "list_all token_ok (tokens @ [IMP])"
    "list_all token_ok (tokens @ [BICOND])"
    using "2.prems" by simp_all
  show ?case
    apply (subst tokenize_loop.simps)
    apply (simp only: if_split [where P = "\<lambda>r. case r of Inl e \<Rightarrow> True | Inr ts \<Rightarrow> list_all token_ok ts"])
    apply (intro conjI impI)
    subgoal by (rule "2.IH"(1)) (assumption | rule "2.prems")+
    subgoal by (rule "2.IH"(2)) (assumption | rule v)+
    subgoal by (rule "2.IH"(3)) (assumption | rule o)+
    subgoal by (rule "2.IH"(4)) (assumption | rule o)+
    subgoal by (rule "2.IH"(5)) (assumption | rule o)+
    subgoal by (rule "2.IH"(6)) (assumption | rule o)+
    subgoal by (rule "2.IH"(7)) (assumption | rule o)+
    subgoal by (rule "2.IH"(8)) (assumption | rule o)+
    subgoal by (rule "2.IH"(9)) (assumption | rule o)+
    subgoal by (rule "2.IH"(10)) (assumption | rule o)+
    subgoal by (rule "2.IH"(11)) (assumption | rule o)+
    subgoal by simp
    done
qed


lemma tokenize_loop_tokens_ok:
  "tokenize_loop s acc = Inr ts \<Longrightarrow> list_all token_ok acc \<Longrightarrow> list_all token_ok ts"
  using tokenize_loop_tokens_ok_aux [of acc s] by simp

lemma parseFormula_names_ok: "parseFormula s = Inr t \<Longrightarrow> names_ok t"
proof -
  assume a: "parseFormula s = Inr t"
  then obtain ts where ts: "tokenize s = Inr ts"
    by (auto simp: parseFormula_def split: sum.splits)
  then have ok: "list_all token_ok ts"
    using tokenize_loop_tokens_ok [of s "[]" ts] by (simp add: tokenize_def)
  from a ts obtain r c' where "parseBicond ts 0 = Inr (t, r, c')"
    by (auto simp: parseFormula_def split: sum.splits if_splits)
  with ok show ?thesis using parse_names_ok(9) by blast
qed

section \<open>The random generator\<close>

lemma randInt_range:
  assumes "0 \<le> r" "r < 1" "lo \<le> hi"
  shows "lo \<le> randInt lo hi r \<and> randInt lo hi r \<le> hi"
proof -
  define n where "n = hi - lo + 1"
  have n: "1 \<le> n" using assms(3) by (simp add: n_def)
  have "0 \<le> r * of_int n" using assms(1) n by simp
  then have lo: "0 \<le> \<lfloor>r * of_int n\<rfloor>" by simp
  have "r * of_int n < of_int n" using assms(2) n by simp
  then have "\<lfloor>r * of_int n\<rfloor> < n" by (simp add: floor_less_iff)
  with lo show ?thesis by (simp add: randInt_def n_def)
qed

lemma array_get_randInt:
  assumes "0 \<le> r" "r < 1" "xs \<noteq> []"
  shows "\<exists>x \<in> set xs. array_get xs (randInt 0 (int (length xs) - 1) r) = Some x"
proof -
  have "0 \<le> int (length xs) - 1" using assms(3) by (cases xs) simp_all
  then have "0 \<le> randInt 0 (int (length xs) - 1) r"
    "randInt 0 (int (length xs) - 1) r \<le> int (length xs) - 1"
    using randInt_range [OF assms(1,2)] by blast+
  then show ?thesis by (simp add: array_get_def)
qed

lemma generateRandomFormulaAST_names_ok:
  assumes "\<forall>j. 0 \<le> rnd j \<and> rnd j < 1" "atoms \<noteq> []" "list_all is_atom_name atoms"
  shows "\<exists>g k' c'. generateRandomFormulaAST maxDepth atoms rnd k c = Some (g, k', c')
            \<and> names_ok g"
using assms proof (induction maxDepth atoms rnd k c rule: generateRandomFormulaAST.induct)
  case (1 maxDepth atoms rnd k c)
  show ?case
  proof (cases "maxDepth \<le> 0")
    case True
    obtain x where "x \<in> set atoms"
      "array_get atoms (randInt 0 (int (length atoms) - 1) (rnd k)) = Some x"
      using array_get_randInt [of "rnd k" atoms] "1.prems" by blast
    moreover from this "1.prems"(3) have "is_atom_name x" by (simp add: list_all_iff)
    ultimately show ?thesis
      using True
      by (subst generateRandomFormulaAST.simps) (simp add: genId_def randomAtom_def)
  next
    case False
    note deep = False
    show ?thesis
    proof (cases "rnd k < 3 / 10")
      case True
      obtain g k1 c1 where
        g: "generateRandomFormulaAST (maxDepth - 1) atoms rnd (k + 1) c = Some (g, k1, c1)"
          "names_ok g"
        using "1.IH"(1) [OF deep refl True "1.prems"] by blast
      then show ?thesis
        using deep True
        by (subst generateRandomFormulaAST.simps) (simp add: genId_def)
    next
      case False
      obtain l k1 c1 where
        l: "generateRandomFormulaAST (maxDepth - 1) atoms rnd (k + 1) c = Some (l, k1, c1)"
          "names_ok l"
        using "1.IH"(2) [OF deep refl False "1.prems"] by blast
      obtain r k2 c2 where
        r: "generateRandomFormulaAST (maxDepth - 1) atoms rnd k1 c1 = Some (r, k2, c2)"
          "names_ok r"
        using "1.IH"(3) [OF deep refl False l(1) refl refl "1.prems"] by blast
      obtain op where
        "array_get [OpAND, OpOR, OpIMP, OpBICOND]
           (randInt 0 (int (length [OpAND, OpOR, OpIMP, OpBICOND]) - 1) (rnd k2)) = Some op"
        using array_get_randInt [of "rnd k2" "[OpAND, OpOR, OpIMP, OpBICOND]"] "1.prems"(1)
        by blast
      then have op: "randomBinaryOp rnd k2 = (Some op, k2 + 1)"
        by (simp add: randomBinaryOp_def)
      show ?thesis
        using deep False l r op
        by (subst generateRandomFormulaAST.simps) (simp add: genId_def)
    qed
  qed
qed


lemma slice0_ATOM_POOL:
  assumes "2 \<le> n" "n \<le> 3"
  shows "slice0 ATOM_POOL n \<noteq> [] \<and> list_all is_atom_name (slice0 ATOM_POOL n)"
proof -
  from assms have "n = 2 \<or> n = 3" by arith
  then show ?thesis
    by (auto simp: slice0_def ATOM_POOL_def ascii_def is_atom_name_def
        numeral_2_eq_2 numeral_3_eq_3)
qed

lemma formulaToUnicode_forget_ids: "formulaToUnicode (forget_ids t) = formulaToUnicode t"
  by (induction t) simp_all

section \<open>The rows of the truth table\<close>

lemma sint_eq_0_iff_word: "(sint (w :: 32 word) = 0) = (w = 0)"
proof
  assume "sint w = 0"
  then have "word_of_int (sint w) = (word_of_int 0 :: 32 word)" by simp
  then show "w = 0" by simp
next
  assume "w = 0"
  then show "sint w = 0" by simp
qed

lemma js_shl1_small: "k < 31 \<Longrightarrow> js_shl1 k = 2 ^ k"
proof -
  assume k: "k < 31"
  have "(2::int) ^ k < 2 ^ 31"
    by (rule power_strict_increasing) (use k in simp_all)
  moreover have "- (2 ^ 31) \<le> (2::int) ^ k"
    by (rule order_trans [of _ 0]) simp_all
  ultimately have a: "signed_take_bit 31 ((2::int) ^ k) = 2 ^ k"
    by (rule_tac signed_take_bit_int_eq_self)
  have "sint (word_of_int (2 ^ k) :: 32 word) = signed_take_bit (LENGTH(32) - 1) (2 ^ k)"
    by (rule sint_sbintrunc')
  also have "\<dots> = 2 ^ k" using a by simp
  finally have "sint ((2 :: 32 word) ^ k) = 2 ^ k" by simp
  then show ?thesis
    using k by (simp add: js_shl1_def)
qed

lemma js_test_bit: "b < 31 \<Longrightarrow> (js_bitand m (js_shl1 b) \<noteq> 0) = bit m b"
proof -
  assume b: "b < 31"
  have "(js_bitand m (2 ^ b) = 0) = (and (word_of_int m :: 32 word) (2 ^ b) = 0)"
    by (simp add: js_bitand_def sint_eq_0_iff_word)
  also have "\<dots> = (\<not> bit (word_of_int m :: 32 word) b)"
    by (rule and_exp_eq_0_iff_not_bit)
  also have "\<dots> = (\<not> bit m b)"
    using b by (simp add: bit_word_of_int_iff)
  finally show ?thesis using b by (simp add: js_shl1_small)
qed

lemma fill_row_other: "a \<notin> set rest \<Longrightarrow> fill_row rest i n mk asg a = asg a"
  by (induction rest arbitrary: i asg) (simp_all add: Let_def)

lemma fill_row_dom: "dom (fill_row rest i n mk asg) = dom asg \<union> set rest"
  by (induction rest arbitrary: i asg) (auto simp: Let_def)

lemma fill_row_nth:
  "distinct rest \<Longrightarrow> j < length rest \<Longrightarrow> n \<le> 31 \<Longrightarrow> 0 < n \<Longrightarrow>
     fill_row rest i n mk asg (rest ! j) = Some (bit mk (n - 1 - (i + j)))"
proof (induction rest arbitrary: i j asg)
  case Nil
  then show ?case by simp
next
  case (Cons a rest)
  show ?case
  proof (cases j)
    case 0
    have "n - 1 - i < 31" using Cons.prems by simp
    then show ?thesis
      using Cons.prems 0 by (simp add: Let_def fill_row_other js_test_bit)
  next
    case (Suc j')
    then show ?thesis
      using Cons.prems Cons.IH [of j' "i + 1"] by (simp add: Let_def)
  qed
qed


lemma rows_loop_eq:
  "rows_loop atoms mk rows = rows @ map (row_of atoms) (rev [0..mk])"
proof (induction atoms mk rows rule: rows_loop.induct)
  case (1 atoms mk rows)
  show ?case
  proof (cases "mk \<ge> 0")
    case True
    then have "rev [0..mk] = mk # rev [0..mk - 1]"
      by (simp add: upto_rec2)
    then show ?thesis
      using True "1.IH" by (subst rows_loop.simps) (simp add: row_of_def)
  next
    case False
    then show ?thesis by (subst rows_loop.simps) simp
  qed
qed

lemma allAssignments_eq:
  "length atoms < 31 \<Longrightarrow>
     allAssignments atoms = map (row_of atoms) (rev [0..2 ^ length atoms - 1])"
  by (simp add: allAssignments_def Let_def js_shl1_small rows_loop_eq)

lemma allAssignments_length:
  "length atoms < 31 \<Longrightarrow> length (allAssignments atoms) = 2 ^ length atoms"
  by (simp add: allAssignments_eq nat_power_eq)

lemma allAssignments_nth:
  assumes "length atoms < 31" "k < 2 ^ length atoms"
  shows "allAssignments atoms ! k = row_of atoms (2 ^ length atoms - 1 - int k)"
proof -
  let ?n = "length atoms"
  have len: "length [0..2 ^ ?n - 1] = 2 ^ ?n"
    by (simp add: nat_power_eq)
  have kl: "k < length [0..2 ^ ?n - 1]"
    using assms(2) by (simp only: len)
  have "rev [0..2 ^ ?n - 1] ! k = [0..2 ^ ?n - 1] ! (length [0..2 ^ ?n - 1] - Suc k)"
    by (rule rev_nth [OF kl])
  also have "\<dots> = [0..2 ^ ?n - 1] ! (2 ^ ?n - Suc k)"
    by (simp only: len)
  also have "\<dots> = 0 + int (2 ^ ?n - Suc k)"
    using assms(2) by (intro nth_upto) (simp add: of_nat_diff)
  also have "\<dots> = 2 ^ ?n - 1 - int k"
    using assms(2) by (simp add: of_nat_diff)
  finally have "rev [0..2 ^ ?n - 1] ! k = 2 ^ ?n - 1 - int k" .
  moreover have "k < length (rev [0..2 ^ ?n - 1])"
    using kl by simp
  ultimately show ?thesis
    by (simp only: allAssignments_eq [OF assms(1)] nth_map)
qed

lemma row_of_nth:
  "distinct atoms \<Longrightarrow> i < length atoms \<Longrightarrow> length atoms < 31 \<Longrightarrow>
     row_of atoms mk (atoms ! i) = Some (bit mk (length atoms - 1 - i))"
  using fill_row_nth [of atoms i "length atoms" 0 mk Map.empty]
  by (cases atoms) (simp_all add: row_of_def)

lemma row_of_dom: "dom (row_of atoms mk) = set atoms"
  by (simp add: row_of_def fill_row_dom)

lemma row_value_row_of:
  assumes "distinct atoms" "length atoms < 31" "0 \<le> mk" "mk < 2 ^ length atoms"
  shows "row_value atoms (row_of atoms mk) = mk"
proof -
  let ?n = "length atoms"
  have "row_value atoms (row_of atoms mk)
          = (\<Sum>i \<leftarrow> [0..<?n]. if row_of atoms mk (atoms ! i) = Some True
                                then 2 ^ (?n - 1 - i) else 0)"
    by (simp add: row_value_def)
  also have "\<dots> = (\<Sum>i \<leftarrow> [0..<?n]. push_bit (?n - Suc i) (of_bool (bit mk (?n - Suc i))))"
    using assms(1,2)
    by (intro arg_cong [where f = sum_list] map_cong refl) (simp add: row_of_nth push_bit_eq_mult)
  also have "\<dots> = (\<Sum>i<?n. push_bit (?n - Suc i) (of_bool (bit mk (?n - Suc i))))"
    by (simp add: interv_sum_list_conv_sum_set_nat atLeast0LessThan)
  also have "\<dots> = (\<Sum>j<?n. push_bit j (of_bool (bit mk j)))"
    by (rule sum.nat_diff_reindex)
  also have "\<dots> = take_bit ?n mk"
    by (simp add: take_bit_sum atLeast0LessThan)
  also have "\<dots> = mk"
    using assms(3,4) by (simp add: take_bit_int_eq_self)
  finally show ?thesis .
qed


lemma atom_names_bound:
  assumes "distinct atoms" "list_all is_atom_name atoms"
  shows "length atoms \<le> 26"
proof -
  have "set atoms \<subseteq> (\<lambda>c. [c]) ` {ch_A..ch_Z}"
  proof
    fix a assume "a \<in> set atoms"
    then have "is_atom_name a" using assms(2) by (simp add: list_all_iff)
    then show "a \<in> (\<lambda>c. [c]) ` {ch_A..ch_Z}"
      by (auto simp: is_atom_name_def split: list.splits)
  qed
  then have "card (set atoms) \<le> card ((\<lambda>c. [c]) ` {ch_A..ch_Z :: nat})"
    by (intro card_mono) simp_all
  also have "\<dots> \<le> card {ch_A..ch_Z :: nat}"
    by (rule card_image_le) simp
  finally show ?thesis using assms(1) by (simp add: distinct_card)
qed

lemma allAssignments_distinct:
  assumes "distinct atoms" "length atoms < 31"
  shows "distinct (allAssignments atoms)"
proof -
  let ?n = "length atoms"
  have "inj_on (row_of atoms) (set (rev [0..2 ^ ?n - 1]))"
  proof (rule inj_onI)
    fix x y
    assume x: "x \<in> set (rev [0..2 ^ ?n - 1])" and y: "y \<in> set (rev [0..2 ^ ?n - 1])"
      and eq: "row_of atoms x = row_of atoms y"
    have "0 \<le> x" "x < 2 ^ ?n" "0 \<le> y" "y < 2 ^ ?n"
      using x y by simp_all
    then have rx: "row_value atoms (row_of atoms x) = x"
      and ry: "row_value atoms (row_of atoms y) = y"
      using assms by (simp_all only: row_value_row_of)
    have "x = row_value atoms (row_of atoms x)" by (rule rx [symmetric])
    also have "\<dots> = row_value atoms (row_of atoms y)" by (rule arg_cong [OF eq])
    also have "\<dots> = y" by (rule ry)
    finally show "x = y" .
  qed
  moreover have "distinct (rev [0..2 ^ ?n - 1])"
    by simp
  ultimately show ?thesis
    by (simp only: allAssignments_eq [OF assms(2)] distinct_map)
qed

lemma allAssignments_first:
  assumes "distinct atoms" "length atoms < 31" "a \<in> set atoms"
  shows "hd (allAssignments atoms) a = Some True"
proof -
  let ?n = "length atoms"
  obtain i where i: "i < ?n" "a = atoms ! i"
    using assms(3) by (auto simp: in_set_conv_nth)
  have ne: "allAssignments atoms \<noteq> []"
    using allAssignments_length [OF assms(2)] by auto
  have "hd (allAssignments atoms) = allAssignments atoms ! 0"
    using ne by (simp add: hd_conv_nth)
  also have "\<dots> = row_of atoms (2 ^ ?n - 1)"
    using allAssignments_nth [OF assms(2), of 0] by simp
  finally have "hd (allAssignments atoms) a = Some (bit (mask ?n :: int) (?n - 1 - i))"
    using i assms(1,2) by (simp add: row_of_nth mask_eq_exp_minus_1)
  then show ?thesis using i(1) by (simp add: bit_mask_iff)
qed

lemma allAssignments_last:
  assumes "distinct atoms" "length atoms < 31" "a \<in> set atoms"
  shows "last (allAssignments atoms) a = Some False"
proof -
  let ?n = "length atoms"
  obtain i where i: "i < ?n" "a = atoms ! i"
    using assms(3) by (auto simp: in_set_conv_nth)
  have len: "length (allAssignments atoms) = 2 ^ ?n"
    by (rule allAssignments_length [OF assms(2)])
  then have ne: "allAssignments atoms \<noteq> []" by auto
  have "last (allAssignments atoms) = allAssignments atoms ! (2 ^ ?n - 1)"
    using ne len by (simp add: last_conv_nth)
  also have "\<dots> = row_of atoms 0"
    using allAssignments_nth [OF assms(2), of "2 ^ ?n - 1"] by (simp add: of_nat_diff)
  finally show ?thesis
    using i assms(1,2) by (simp add: row_of_nth)
qed

lemma allAssignments_P_Q:
  "allAssignments [ascii ''P'', ascii ''Q'']
     = [[ascii ''P'' \<mapsto> True, ascii ''Q'' \<mapsto> True],
        [ascii ''P'' \<mapsto> True, ascii ''Q'' \<mapsto> False],
        [ascii ''P'' \<mapsto> False, ascii ''Q'' \<mapsto> True],
        [ascii ''P'' \<mapsto> False, ascii ''Q'' \<mapsto> False]]"
proof -
  show ?thesis
    by (simp add: allAssignments_def rows_loop.simps Let_def js_shl1_small js_bitand_def)
qed

lemma allAssignments_31_atoms: "length atoms = 31 \<Longrightarrow> allAssignments atoms = []"
proof -
  assume n: "length atoms = 31"
  have "sint (push_bit 31 (1 :: 32 word)) = - (2 ^ 31)"
    by (simp add: push_bit_of_1)
  then have "js_shl1 31 - 1 < 0" by (simp add: js_shl1_def)
  then show ?thesis
    using n by (simp add: allAssignments_def Let_def rows_loop.simps)
qed

section \<open>Parsing a chain of implications\<close>

lemma forget_ids_imp_chain_left:
  "forget_ids a = forget_ids b \<Longrightarrow>
     forget_ids (imp_chain_left a ts) = forget_ids (imp_chain_left b ts)"
  unfolding imp_chain_left_def
  by (induction ts arbitrary: a b) simp_all

lemma parseOr_stop:
  "parseUnary xs c = Inr (n, r, c') \<Longrightarrow> \<not> next_is TyAND r \<Longrightarrow> \<not> next_is TyOR r
     \<Longrightarrow> parseOr xs c = Inr (n, r, c')"
  by (simp add: parseOr.simps parseOr_loop.simps parseAnd.simps parseAnd_loop.simps)

lemma imp_chain_tokens_head:
  "\<not> next_is TyAND rest \<Longrightarrow> \<not> next_is TyAND (imp_chain_tokens ts @ rest)"
  "\<not> next_is TyOR rest \<Longrightarrow> \<not> next_is TyOR (imp_chain_tokens ts @ rest)"
  by (cases ts; simp add: imp_chain_tokens_def next_is_def next_tok_def)+

lemma parseImp_loop_chain:
  assumes "\<not> next_is TyAND rest" "\<not> next_is TyOR rest" "\<not> next_is TyIMP rest"
  shows "\<exists>t' c'. parseImp_loop node (imp_chain_tokens ts @ rest) c = Inr (t', rest, c')
           \<and> forget_ids t' = forget_ids (imp_chain_left node ts)"
proof (induction ts arbitrary: node c)
  case Nil
  show ?case using assms(3)
    by (simp add: imp_chain_tokens_def imp_chain_left_def parseImp_loop.simps)
next
  case (Cons t ts)
  let ?tail = "imp_chain_tokens ts @ rest"
  obtain r c1 where r: "parseUnary (tokens_of t @ ?tail) c = Inr (r, ?tail, c1)"
    "forget_ids r = forget_ids t"
    using parseUnary_tokens_of [of t ?tail c] by blast
  have o: "parseOr (tokens_of t @ ?tail) c = Inr (r, ?tail, c1)"
    using r(1) imp_chain_tokens_head(1) [OF assms(1)] imp_chain_tokens_head(2) [OF assms(2)]
    by (rule parseOr_stop)
  obtain t' c' where t': "parseImp_loop (Binary c1 OpIMP node r) ?tail (c1 + 1) = Inr (t', rest, c')"
    "forget_ids t' = forget_ids (imp_chain_left (Binary c1 OpIMP node r) ts)"
    using Cons [of "Binary c1 OpIMP node r" "c1 + 1"] by blast
  have tok: "imp_chain_tokens (t # ts) @ rest = IMP # tokens_of t @ ?tail"
    by (simp add: imp_chain_tokens_def)
  have "parseImp_loop node (imp_chain_tokens (t # ts) @ rest) c = Inr (t', rest, c')"
    unfolding tok
    using t'(1)
    by (subst parseImp_loop.simps)
      (simp add: next_is_def next_tok_def eat_def genId_def o)
  moreover have "forget_ids (imp_chain_left (Binary c1 OpIMP node r) ts)
      = forget_ids (imp_chain_left node (t # ts))"
  proof -
    have u: "imp_chain_left node (t # ts) = imp_chain_left (Binary 0 OpIMP node t) ts"
      by (simp add: imp_chain_left_def)
    have "forget_ids (Binary c1 OpIMP node r) = forget_ids (Binary 0 OpIMP node t)"
      using r(2) by simp
    then have "forget_ids (imp_chain_left (Binary c1 OpIMP node r) ts)
        = forget_ids (imp_chain_left (Binary 0 OpIMP node t) ts)"
      by (rule forget_ids_imp_chain_left)
    then show ?thesis by (simp only: u)
  qed
  ultimately show ?case using t'(2) by simp
qed

lemma parseFormula_imp_chain_tokens:
  assumes "tokenize s = Inr (tokens_of t0 @ imp_chain_tokens ts)"
  shows "\<exists>ast. parseFormula s = Inr ast
           \<and> forget_ids ast = forget_ids (imp_chain_left t0 ts)"
proof -
  have e: "\<not> next_is TyAND []" "\<not> next_is TyOR []" "\<not> next_is TyIMP []"
    by (simp_all add: next_is_def next_tok_def)
  let ?tail = "imp_chain_tokens ts"
  have h: "\<not> next_is TyAND ?tail" "\<not> next_is TyOR ?tail"
    using imp_chain_tokens_head(1) [OF e(1), of ts] imp_chain_tokens_head(2) [OF e(2), of ts]
    by simp_all
  obtain l c1 where l: "parseUnary (tokens_of t0 @ ?tail) 0 = Inr (l, ?tail, c1)"
    "forget_ids l = forget_ids t0"
    using parseUnary_tokens_of [of t0 ?tail 0] by blast
  have o: "parseOr (tokens_of t0 @ ?tail) 0 = Inr (l, ?tail, c1)"
    using l(1) h by (rule parseOr_stop)
  obtain ast c' where a: "parseImp_loop l ?tail c1 = Inr (ast, [], c')"
    "forget_ids ast = forget_ids (imp_chain_left l ts)"
    using parseImp_loop_chain [OF e, of l ts c1] by auto
  have i: "parseImp (tokens_of t0 @ ?tail) 0 = Inr (ast, [], c')"
    by (simp add: parseImp.simps o a(1))
  have "parseBicond (tokens_of t0 @ ?tail) 0 = Inr (ast, [], c')"
    by (simp add: parseBicond.simps parseBicond_loop.simps i next_is_def next_tok_def)
  then have "parseFormula s = Inr ast"
    using assms by (simp add: parseFormula_def)
  moreover have "forget_ids ast = forget_ids (imp_chain_left t0 ts)"
    using a(2) forget_ids_imp_chain_left [OF l(2), of ts] by simp
  ultimately show ?thesis by blast
qed

lemma tokenize_loop_imp_chain:
  "list_all names_ok ts \<Longrightarrow>
     tokenize_loop (concat (map (\<lambda>t. ascii '' -> '' @ formulaToAscii t) ts)) acc
       = Inr (acc @ imp_chain_tokens ts)"
proof (induction ts arbitrary: acc)
  case Nil
  show ?case by (simp add: imp_chain_tokens_def)
next
  case (Cons t ts)
  then have t: "names_ok t" and ts: "list_all names_ok ts" by simp_all
  let ?rest = "concat (map (\<lambda>t. ascii '' -> '' @ formulaToAscii t) ts)"
  have "tokenize_loop (ascii '' -> '' @ formulaToAscii t @ ?rest) acc
          = tokenize_loop (formulaToAscii t @ ?rest) (acc @ [IMP])"
    by (simp add: ascii_def)
  also have "\<dots> = tokenize_loop ?rest ((acc @ [IMP]) @ tokens_of t)"
    using t by (rule tokenize_loop_ascii)
  also have "\<dots> = Inr (((acc @ [IMP]) @ tokens_of t) @ imp_chain_tokens ts)"
    using ts by (rule Cons.IH)
  finally show ?case by (simp add: imp_chain_tokens_def)
qed

lemma tokenize_imp_chain_ascii:
  assumes "names_ok t0" "list_all names_ok ts"
  shows "tokenize (imp_chain_ascii t0 ts) = Inr (tokens_of t0 @ imp_chain_tokens ts)"
proof -
  let ?rest = "concat (map (\<lambda>t. ascii '' -> '' @ formulaToAscii t) ts)"
  have "tokenize_loop (formulaToAscii t0 @ ?rest) [] = tokenize_loop ?rest ([] @ tokens_of t0)"
    using assms(1) by (rule tokenize_loop_ascii)
  also have "\<dots> = Inr (([] @ tokens_of t0) @ imp_chain_tokens ts)"
    using assms(2) by (rule tokenize_loop_imp_chain)
  finally show ?thesis by (simp add: tokenize_def imp_chain_ascii_def)
qed

lemma parseFormula_imp_chain:
  assumes "names_ok t0" "list_all names_ok ts"
  shows "\<exists>ast. parseFormula (imp_chain_ascii t0 ts) = Inr ast
           \<and> structurally_equal ast (imp_chain_left t0 ts)"
  unfolding structurally_equal_def
  using tokenize_imp_chain_ascii [OF assms] by (rule parseFormula_imp_chain_tokens)


lemma parseImp_loop_step:
  "parseOr ts1 c = Inr (right, ts2, c2) \<Longrightarrow>
     parseImp_loop node (IMP # ts1) c = parseImp_loop (Binary c2 OpIMP node right) ts2 (c2 + 1)"
  by (subst parseImp_loop.simps) (simp add: next_is_def next_tok_def eat_def genId_def)

chapter \<open>Properties\<close>

section \<open>The tokenizer on the letter V\<close>

text \<open>
  C1. The claim: \<open>tokenize\<close> maps every \<open>v\<close>, \<open>V\<close> and Unicode disjunction sign to an
  OR token and never to a VAR token. The code does so for \<open>v\<close> and for the Unicode
  sign, not for \<open>V\<close>: it tests for an upper-case letter first, so the comparison with
  \<open>V\<close> in its disjunction branch is never reached. The one-letter input \<open>V\<close> gives a
  VAR token, and \<open>P V Q\<close> is three variables in a row, which the parser rejects, while
  \<open>P v Q\<close> is a disjunction.
\<close>

theorem tokenize_upper_V_is_VAR:
  "tokenize (ascii ''V'') = Inr [VAR (ascii ''V'')]
   \<and> tokenize (ascii ''P V Q'') = Inr [VAR (ascii ''P''), VAR (ascii ''V''), VAR (ascii ''Q'')]
   \<and> parseFormula (ascii ''P V Q'') = Inl ExtraTokensAtEnd
   \<and> tokenize (ascii ''P v Q'') = Inr [VAR (ascii ''P''), OR, VAR (ascii ''Q'')]
   \<and> tokenize [u_or] = Inr [OR]"
proof (intro conjI)
  show "tokenize (ascii ''V'') = Inr [VAR (ascii ''V'')]"
    by (simp add: run_simps)
  show "tokenize (ascii ''P V Q'')
          = Inr [VAR (ascii ''P''), VAR (ascii ''V''), VAR (ascii ''Q'')]"
    by (simp add: run_simps)
  show "parseFormula (ascii ''P V Q'') = Inl ExtraTokensAtEnd"
    by (simp add: run_simps)
  show "tokenize (ascii ''P v Q'') = Inr [VAR (ascii ''P''), OR, VAR (ascii ''Q'')]"
    by (simp add: run_simps)
  show "tokenize [u_or] = Inr [OR]"
    by (simp add: run_simps)
qed

section \<open>Implication associates to the left\<close>

text \<open>
  C3. Implication associates to the left. In the loop of \<open>parseImp\<close> every further
  operand becomes the right side of an implication whose left side is all that was
  parsed before, and so every chain of operands joined by arrows, each operand a
  variable, a negation or a parenthesised formula, parses to the tree nested to the
  left. In particular \<open>P -> Q -> R\<close> parses to the tree of \<open>(P -> Q) -> R\<close>, which is
  not the tree of \<open>P -> (Q -> R)\<close>; under the assignment P false, Q true, R false the
  parsed formula evaluates to false, and the right-associated reading evaluates to true.
\<close>

theorem parseFormula_imp_left_assoc:
  "parseFormula (ascii ''P -> Q -> R'') = Inr imp_left_tree
   \<and> parseFormula (ascii ''(P -> Q) -> R'') = Inr imp_left_tree
   \<and> parseFormula (ascii ''P -> (Q -> R)'') = Inr imp_right_tree
   \<and> (\<exists>a b. parseFormula (ascii ''P -> Q -> R'') = Inr a
          \<and> parseFormula (ascii ''(P -> Q) -> R'') = Inr b \<and> structurally_equal a b)
   \<and> \<not> structurally_equal imp_left_tree imp_right_tree
   \<and> evalNode imp_left_tree
        [ascii ''P'' \<mapsto> False, ascii ''Q'' \<mapsto> True, ascii ''R'' \<mapsto> False] = Some False
   \<and> evalNode imp_right_tree
        [ascii ''P'' \<mapsto> False, ascii ''Q'' \<mapsto> True, ascii ''R'' \<mapsto> False] = Some True
   \<and> (\<forall>t0 ts. names_ok t0 \<longrightarrow> list_all names_ok ts \<longrightarrow>
          (\<exists>ast. parseFormula (imp_chain_ascii t0 ts) = Inr ast
             \<and> structurally_equal ast (imp_chain_left t0 ts)))
   \<and> (\<forall>node ts1 c right ts2 c2. parseOr ts1 c = Inr (right, ts2, c2) \<longrightarrow>
          parseImp_loop node (IMP # ts1) c
            = parseImp_loop (Binary c2 OpIMP node right) ts2 (c2 + 1))
   \<and> imp_chain_ascii (Var 0 (ascii ''P'')) [Var 1 (ascii ''Q''), Var 3 (ascii ''R'')]
        = ascii ''P -> Q -> R''
   \<and> structurally_equal
        (imp_chain_left (Var 0 (ascii ''P'')) [Var 1 (ascii ''Q''), Var 3 (ascii ''R'')])
        imp_left_tree"
proof (intro conjI allI impI)
  show l: "parseFormula (ascii ''P -> Q -> R'') = Inr imp_left_tree"
    by (simp add: imp_left_tree_def run_simps)
  show p: "parseFormula (ascii ''(P -> Q) -> R'') = Inr imp_left_tree"
    by (simp add: imp_left_tree_def run_simps)
  show "parseFormula (ascii ''P -> (Q -> R)'') = Inr imp_right_tree"
    by (simp add: imp_right_tree_def run_simps)
  show "\<exists>a b. parseFormula (ascii ''P -> Q -> R'') = Inr a
          \<and> parseFormula (ascii ''(P -> Q) -> R'') = Inr b \<and> structurally_equal a b"
    using l p by (simp add: structurally_equal_def)
  show "\<not> structurally_equal imp_left_tree imp_right_tree"
    by (simp add: structurally_equal_def imp_left_tree_def imp_right_tree_def)
  show "evalNode imp_left_tree
        [ascii ''P'' \<mapsto> False, ascii ''Q'' \<mapsto> True, ascii ''R'' \<mapsto> False] = Some False"
    by (simp add: imp_left_tree_def js_simps ascii_def)
  show "evalNode imp_right_tree
        [ascii ''P'' \<mapsto> False, ascii ''Q'' \<mapsto> True, ascii ''R'' \<mapsto> False] = Some True"
    by (simp add: imp_right_tree_def js_simps ascii_def)
  show "imp_chain_ascii (Var 0 (ascii ''P'')) [Var 1 (ascii ''Q''), Var 3 (ascii ''R'')]
        = ascii ''P -> Q -> R''"
    by (simp add: imp_chain_ascii_def ascii_def)
  show "structurally_equal
        (imp_chain_left (Var 0 (ascii ''P'')) [Var 1 (ascii ''Q''), Var 3 (ascii ''R'')])
        imp_left_tree"
    by (simp add: structurally_equal_def imp_chain_left_def imp_left_tree_def)
next
  fix t0 ts
  assume "names_ok t0" "list_all names_ok ts"
  then show "\<exists>ast. parseFormula (imp_chain_ascii t0 ts) = Inr ast
             \<and> structurally_equal ast (imp_chain_left t0 ts)"
    by (rule parseFormula_imp_chain)
next
  fix node ts1 c right ts2 c2
  assume "parseOr ts1 c = Inr (right, ts2, c2)"
  then show "parseImp_loop node (IMP # ts1) c
            = parseImp_loop (Binary c2 OpIMP node right) ts2 (c2 + 1)"
    by (rule parseImp_loop_step)
qed

theorem parseFormula_imp_left_assoc_witness:
  "imp_chain_ascii chain_first chain_rest = ascii ''~A -> (B & C) -> D''
   \<and> imp_chain_left chain_first chain_rest
       = Binary 0 OpIMP
           (Binary 0 OpIMP (Unary 0 (Var 0 (ascii ''A'')))
              (Binary 0 OpAND (Var 0 (ascii ''B'')) (Var 0 (ascii ''C''))))
           (Var 0 (ascii ''D''))
   \<and> (\<exists>ast. parseFormula (ascii ''~A -> (B & C) -> D'') = Inr ast
          \<and> structurally_equal ast (imp_chain_left chain_first chain_rest))
   \<and> parseOr [VAR (ascii ''Q'')] 1 = Inr (Var 1 (ascii ''Q''), [], 2)
   \<and> parseImp_loop (Var 0 (ascii ''P'')) [IMP, VAR (ascii ''Q'')] 1
       = Inr (Binary 2 OpIMP (Var 0 (ascii ''P'')) (Var 1 (ascii ''Q'')), [], 3)"
proof -
  have s: "imp_chain_ascii chain_first chain_rest = ascii ''~A -> (B & C) -> D''"
    by (simp add: imp_chain_ascii_def chain_first_def chain_rest_def ascii_def)
  have t: "imp_chain_left chain_first chain_rest
       = Binary 0 OpIMP
           (Binary 0 OpIMP (Unary 0 (Var 0 (ascii ''A'')))
              (Binary 0 OpAND (Var 0 (ascii ''B'')) (Var 0 (ascii ''C''))))
           (Var 0 (ascii ''D''))"
    by (simp add: imp_chain_left_def chain_first_def chain_rest_def)
  have n0: "names_ok chain_first"
    by (simp add: chain_first_def is_atom_name_def ascii_def)
  have ns: "list_all names_ok chain_rest"
    by (simp add: chain_rest_def is_atom_name_def ascii_def)
  note th = parseFormula_imp_left_assoc
  have g: "\<forall>t0 ts. names_ok t0 \<longrightarrow> list_all names_ok ts \<longrightarrow>
          (\<exists>ast. parseFormula (imp_chain_ascii t0 ts) = Inr ast
             \<and> structurally_equal ast (imp_chain_left t0 ts))"
    using th by (elim conjE)
  have st: "\<forall>node ts1 c right ts2 c2. parseOr ts1 c = Inr (right, ts2, c2) \<longrightarrow>
          parseImp_loop node (IMP # ts1) c
            = parseImp_loop (Binary c2 OpIMP node right) ts2 (c2 + 1)"
    using th by (elim conjE)
  have a: "\<exists>ast. parseFormula (ascii ''~A -> (B & C) -> D'') = Inr ast
          \<and> structurally_equal ast (imp_chain_left chain_first chain_rest)"
    using g [THEN spec, THEN spec, THEN mp, THEN mp, OF n0 ns] by (simp only: s)
  have o: "parseOr [VAR (ascii ''Q'')] 1 = Inr (Var 1 (ascii ''Q''), [], 2)"
    by (simp add: parse_simps)
  have "parseImp_loop (Var 0 (ascii ''P'')) [IMP, VAR (ascii ''Q'')] 1
       = parseImp_loop (Binary 2 OpIMP (Var 0 (ascii ''P'')) (Var 1 (ascii ''Q''))) [] (2 + 1)"
    using st o by blast
  also have "\<dots> = Inr (Binary 2 OpIMP (Var 0 (ascii ''P'')) (Var 1 (ascii ''Q'')), [], 3)"
    by (simp add: parse_simps)
  finally show ?thesis using s t a o by simp
qed

section \<open>Tokens left over\<close>

text \<open>
  C9. \<open>A~\<close> tokenizes to a VAR token and a NOT token; \<open>parseFormula\<close> fails on it with
  the error for tokens left at the end. In general, when the top-level expression is
  parsed and a token remains, \<open>parseFormula\<close> throws that error.
\<close>

theorem parseFormula_extra_tokens:
  "tokenize (ascii ''A~'') = Inr [VAR (ascii ''A''), NOT]
   \<and> parseFormula (ascii ''A~'') = Inl ExtraTokensAtEnd
   \<and> (\<forall>input tokens node rest c.
        tokenize input = Inr tokens \<longrightarrow> parseBicond tokens 0 = Inr (node, rest, c)
          \<longrightarrow> rest \<noteq> [] \<longrightarrow> parseFormula input = Inl ExtraTokensAtEnd)"
proof (intro conjI allI impI)
  show "tokenize (ascii ''A~'') = Inr [VAR (ascii ''A''), NOT]"
    by (simp add: run_simps)
  show "parseFormula (ascii ''A~'') = Inl ExtraTokensAtEnd"
    by (simp add: run_simps)
next
  fix input tokens node rest c
  assume "tokenize input = Inr tokens" "parseBicond tokens 0 = Inr (node, rest, c)"
    "rest \<noteq> []"
  then show "parseFormula input = Inl ExtraTokensAtEnd"
    by (simp add: parseFormula_def)
qed

theorem parseFormula_extra_tokens_witness:
  "tokenize (ascii ''A & B )'')
     = Inr [VAR (ascii ''A''), AND, VAR (ascii ''B''), RPAREN]
   \<and> parseBicond [VAR (ascii ''A''), AND, VAR (ascii ''B''), RPAREN] 0
     = Inr (Binary 2 OpAND (Var 0 (ascii ''A'')) (Var 1 (ascii ''B'')), [RPAREN], 3)
   \<and> [RPAREN] \<noteq> []
   \<and> parseFormula (ascii ''A & B )'') = Inl ExtraTokensAtEnd"
proof -
  have t: "tokenize (ascii ''A & B )'')
     = Inr [VAR (ascii ''A''), AND, VAR (ascii ''B''), RPAREN]"
    by (simp add: run_simps)
  have p: "parseBicond [VAR (ascii ''A''), AND, VAR (ascii ''B''), RPAREN] 0
     = Inr (Binary 2 OpAND (Var 0 (ascii ''A'')) (Var 1 (ascii ''B'')), [RPAREN], 3)"
    by (simp add: run_simps)
  have "parseFormula (ascii ''A & B )'') = Inl ExtraTokensAtEnd"
    using parseFormula_extra_tokens t p by blast
  with t p show ?thesis by simp
qed

section \<open>Evaluation\<close>

text \<open>
  C5. For every tree and every assignment that gives each variable of the tree a boolean,
  \<open>evalNode\<close> returns the truth value of the tree: a variable by lookup, a negation as
  NOT, AND as conjunction, OR as inclusive disjunction, IMP as not left or right, BICOND
  as equality. The default formula, the conjunction of P and Q implying not R, is true
  under P, Q true and R false, and false under P, Q, R all true.
\<close>

theorem evalNode_semantics:
  "(\<forall>node (asg :: Assignment) (v :: jsstring \<Rightarrow> bool).
       (\<forall>x \<in> vars node. asg x = Some (v x))
       \<longrightarrow> evalNode node asg = Some (truth_value node v))
   \<and> parseFormula DEFAULT_FORMULA = Inr default_tree
   \<and> evalNode default_tree
        [ascii ''P'' \<mapsto> True, ascii ''Q'' \<mapsto> True, ascii ''R'' \<mapsto> False] = Some True
   \<and> evalNode default_tree
        [ascii ''P'' \<mapsto> True, ascii ''Q'' \<mapsto> True, ascii ''R'' \<mapsto> True] = Some False"
proof (intro conjI allI impI)
  fix node and asg :: Assignment and v :: "jsstring \<Rightarrow> bool"
  assume "\<forall>x \<in> vars node. asg x = Some (v x)"
  then show "evalNode node asg = Some (truth_value node v)"
    by (rule evalNode_agrees)
next
  show "parseFormula DEFAULT_FORMULA = Inr default_tree"
    by (simp add: DEFAULT_FORMULA_def default_tree_def run_simps)
  show "evalNode default_tree
        [ascii ''P'' \<mapsto> True, ascii ''Q'' \<mapsto> True, ascii ''R'' \<mapsto> False] = Some True"
    by (simp add: default_tree_def js_simps ascii_def)
  show "evalNode default_tree
        [ascii ''P'' \<mapsto> True, ascii ''Q'' \<mapsto> True, ascii ''R'' \<mapsto> True] = Some False"
    by (simp add: default_tree_def js_simps ascii_def)
qed

theorem evalNode_semantics_witness:
  "evalNode default_tree
        [ascii ''P'' \<mapsto> True, ascii ''Q'' \<mapsto> True, ascii ''R'' \<mapsto> False]
     = Some (truth_value default_tree (\<lambda>x. x \<noteq> ascii ''R''))
   \<and> truth_value default_tree (\<lambda>x. x \<noteq> ascii ''R'') = True"
proof -
  have h: "\<forall>x \<in> vars default_tree.
          [ascii ''P'' \<mapsto> True, ascii ''Q'' \<mapsto> True, ascii ''R'' \<mapsto> False] x
            = Some (x \<noteq> ascii ''R'')"
    by (simp add: default_tree_def ascii_def)
  have "evalNode default_tree
        [ascii ''P'' \<mapsto> True, ascii ''Q'' \<mapsto> True, ascii ''R'' \<mapsto> False]
     = Some (truth_value default_tree (\<lambda>x. x \<noteq> ascii ''R''))"
    using evalNode_semantics [THEN conjunct1, THEN spec, THEN spec, THEN spec, THEN mp, OF h] .
  moreover have "truth_value default_tree (\<lambda>x. x \<noteq> ascii ''R'') = True"
    by (simp add: default_tree_def ascii_def)
  ultimately show ?thesis by simp
qed

section \<open>The grammaticality warning\<close>

text \<open>
  C4. After a successful parse the warning is set exactly when the input and the ASCII
  print of the tree have different normal forms, where the normal form drops white space
  and maps each spelling of a connective to its ASCII spelling; after a failed parse no
  warning is set. \<open>P & Q v R\<close> parses to the disjunction of the conjunction of P and Q
  with R, whose print is \<open>((P & Q) v R)\<close>, and the warning is set.
\<close>

theorem grammar_warning_iff_normal_forms_differ:
  "(\<forall>str st ast. parseFormula str = Inr ast \<longrightarrow>
       grammarWarning (loadFormula str st)
         = (if normalize_spec str \<noteq> normalize_spec (formulaToAscii ast)
            then Some UNGRAMMATICAL else None))
   \<and> (\<forall>str st e. parseFormula str = Inl e \<longrightarrow> grammarWarning (loadFormula str st) = None)
   \<and> (\<forall>s. normalizeForGrammar s = normalize_spec s)
   \<and> parseFormula (ascii ''P & Q v R'') = Inr and_or_tree
   \<and> formulaToAscii and_or_tree = ascii ''((P & Q) v R)''
   \<and> (\<forall>st. grammarWarning (loadFormula (ascii ''P & Q v R'') st) = Some UNGRAMMATICAL)"
proof (intro conjI allI impI)
  fix str st ast
  assume "parseFormula str = Inr ast"
  then show "grammarWarning (loadFormula str st)
         = (if normalize_spec str \<noteq> normalize_spec (formulaToAscii ast)
            then Some UNGRAMMATICAL else None)"
    by (simp only: grammarWarning_loadFormula_ok normalizeForGrammar_eq_spec)
next
  fix str st e
  assume "parseFormula str = Inl e"
  then show "grammarWarning (loadFormula str st) = None"
    by (rule grammarWarning_loadFormula_error)
next
  fix s
  show "normalizeForGrammar s = normalize_spec s"
    by (rule normalizeForGrammar_eq_spec)
next
  show p: "parseFormula (ascii ''P & Q v R'') = Inr and_or_tree"
    by (simp add: and_or_tree_def run_simps)
  show "formulaToAscii and_or_tree = ascii ''((P & Q) v R)''"
    by (simp add: and_or_tree_def ascii_def)
  fix st
  have "normalizeForGrammar (ascii ''P & Q v R'')
          \<noteq> normalizeForGrammar (formulaToAscii and_or_tree)"
    by (simp add: and_or_tree_def normalize_simps)
  then show "grammarWarning (loadFormula (ascii ''P & Q v R'') st) = Some UNGRAMMATICAL"
    by (simp add: grammarWarning_loadFormula_ok [OF p])
qed

theorem grammar_warning_iff_normal_forms_differ_witness:
  "parseFormula (ascii ''((P & Q) v R)'') = Inr and_or_tree
   \<and> normalize_spec (ascii ''((P & Q) v R)'') = normalize_spec (formulaToAscii and_or_tree)
   \<and> grammarWarning (loadFormula (ascii ''((P & Q) v R)'') initial_state) = None
   \<and> parseFormula (ascii ''P &'') = Inl UnexpectedEndOfInputInPrimary
   \<and> grammarWarning (loadFormula (ascii ''P &'') initial_state) = None"
proof -
  have p: "parseFormula (ascii ''((P & Q) v R)'') = Inr and_or_tree"
    by (simp add: and_or_tree_def run_simps)
  have n: "normalize_spec (ascii ''((P & Q) v R)'') = normalize_spec (formulaToAscii and_or_tree)"
    by (simp add: and_or_tree_def ascii_def)
  have e: "parseFormula (ascii ''P &'') = Inl UnexpectedEndOfInputInPrimary"
    by (simp add: run_simps)
  have "grammarWarning (loadFormula (ascii ''((P & Q) v R)'') initial_state) = None"
    using grammar_warning_iff_normal_forms_differ
      [THEN conjunct1, THEN spec, THEN spec, THEN spec, THEN mp, OF p, of initial_state] n
    by simp
  moreover have "grammarWarning (loadFormula (ascii ''P &'') initial_state) = None"
    using grammar_warning_iff_normal_forms_differ
      [THEN conjunct2, THEN conjunct1, THEN spec, THEN spec, THEN spec, THEN mp, OF e] .
  ultimately show ?thesis using p n e by simp
qed


section \<open>The two printers\<close>

text \<open>
  C10. For every tree, the ASCII print and the Unicode print have the same normal form.
\<close>

theorem printers_agree_after_normalization:
  "normalizeForGrammar (formulaToAscii node) = normalizeForGrammar (formulaToUnicode node)"
proof (induction node)
  case (Var i name)
  show ?case by simp
next
  case (Unary i child)
  then show ?case
    by (simp add: normalize_simps)
next
  case (Binary i op left right)
  then show ?case
    by (cases op) (simp_all add: normalize_simps)
qed

section \<open>Subformulas come in post-order\<close>

text \<open>
  C6. For every tree, \<open>collectSubformulas\<close> returns the Unary and Binary nodes of the
  tree, each as often as it occurs, and no Var node; the length of the list is the number
  of Unary nodes plus the number of Binary nodes; and every node of the list stands after
  its children that are not variables: the right (or only) child directly before it, the
  left child directly before the subformulas of the right child.
\<close>

theorem collectSubformulas_postorder:
  "mset (collectSubformulas t []) = mset (filter (\<lambda>n. \<not> isVar n) (nodes t))
   \<and> (\<forall>n \<in> set (collectSubformulas t []). \<not> isVar n)
   \<and> length (collectSubformulas t []) = count_unary t + count_binary t
   \<and> (\<forall>k < length (collectSubformulas t []). children_before (collectSubformulas t []) k)"
proof (intro conjI ballI allI impI)
  show "mset (collectSubformulas t []) = mset (filter (\<lambda>n. \<not> isVar n) (nodes t))"
    by (rule collect_mset)
  show "length (collectSubformulas t []) = count_unary t + count_binary t"
    using collect_length [of t] by (simp add: count_nonatomic_def)
next
  fix n assume "n \<in> set (collectSubformulas t [])"
  then show "\<not> isVar n" by (rule collect_no_Var)
next
  fix k assume "k < length (collectSubformulas t [])"
  then show "children_before (collectSubformulas t []) k"
    by (rule collect_children_before)
qed

theorem collectSubformulas_postorder_witness:
  "collectSubformulas default_tree []
     = [Binary 2 OpAND (Var 0 (ascii ''P'')) (Var 1 (ascii ''Q'')),
        Unary 4 (Var 3 (ascii ''R'')), default_tree]
   \<and> length (collectSubformulas default_tree []) = 3
   \<and> children_before (collectSubformulas default_tree []) 2
   \<and> \<not> isVar (collectSubformulas default_tree [] ! 0)"
proof -
  have xs: "collectSubformulas default_tree []
     = [Binary 2 OpAND (Var 0 (ascii ''P'')) (Var 1 (ascii ''Q'')),
        Unary 4 (Var 3 (ascii ''R'')), default_tree]"
    by (simp add: default_tree_def)
  note th = collectSubformulas_postorder [of default_tree]
  have len: "length (collectSubformulas default_tree []) = 3"
    using th by (simp add: default_tree_def)
  have "(2::nat) < length (collectSubformulas default_tree [])"
    by (simp add: xs)
  with th have cb: "children_before (collectSubformulas default_tree []) 2"
    by blast
  have "collectSubformulas default_tree [] ! 0 \<in> set (collectSubformulas default_tree [])"
    by (simp add: xs)
  with th have "\<not> isVar (collectSubformulas default_tree [] ! 0)"
    by blast
  with xs len cb show ?thesis by simp
qed

section \<open>Printing and parsing again\<close>

text \<open>
  C7. When \<open>parseFormula\<close> succeeds on an input, parsing the ASCII print of the tree
  succeeds as well and gives a tree that is structurally equal to the first one.
\<close>

theorem parse_print_parse:
  "parseFormula input = Inr ast \<Longrightarrow>
     \<exists>ast'. parseFormula (formulaToAscii ast) = Inr ast' \<and> structurally_equal ast' ast"
proof -
  assume "parseFormula input = Inr ast"
  then have "names_ok ast" by (rule parseFormula_names_ok)
  then have "tokenize (formulaToAscii ast) = Inr (tokens_of ast)"
    by (rule tokenize_formulaToAscii)
  then show ?thesis
    unfolding structurally_equal_def by (rule parseFormula_of_print)
qed

theorem parse_print_parse_witness:
  "parseFormula (ascii ''P & Q v R'') = Inr and_or_tree
   \<and> formulaToAscii and_or_tree = ascii ''((P & Q) v R)''
   \<and> (\<exists>ast'. parseFormula (ascii ''((P & Q) v R)'') = Inr ast'
         \<and> structurally_equal ast' and_or_tree)"
proof -
  have p: "parseFormula (ascii ''P & Q v R'') = Inr and_or_tree"
    by (simp add: and_or_tree_def run_simps)
  have a: "formulaToAscii and_or_tree = ascii ''((P & Q) v R)''"
    by (simp add: and_or_tree_def ascii_def)
  from parse_print_parse [OF p] a p show ?thesis by simp
qed

section \<open>Generated formulas parse and print back\<close>

text \<open>
  C8. Whatever values in \<open>[0, 1)\<close> the random source returns, \<open>generateRandomFormulaString\<close>
  returns a string, \<open>parseFormula\<close> accepts it, and the Unicode print of the parsed tree
  is that string again.
\<close>

theorem generated_formula_round_trip:
  assumes "\<forall>j. 0 \<le> rnd j \<and> rnd j < 1"
  shows "\<exists>s k' c' ast. generateRandomFormulaString rnd k c = Some (s, k', c')
           \<and> parseFormula s = Inr ast \<and> formulaToUnicode ast = s"
proof -
  define numAtoms where "numAtoms = randInt 2 3 (rnd k)"
  define atoms where "atoms = slice0 ATOM_POOL numAtoms"
  define depth where "depth = randInt 1 3 (rnd (k + 1))"
  have "2 \<le> numAtoms" "numAtoms \<le> 3"
    using randInt_range [of "rnd k" 2 3] assms by (simp_all add: numAtoms_def)
  then have atoms: "atoms \<noteq> []" "list_all is_atom_name atoms"
    using slice0_ATOM_POOL [of numAtoms] by (simp_all add: atoms_def)
  obtain g k' c' where
    g: "generateRandomFormulaAST depth atoms rnd (k + 2) c = Some (g, k', c')" "names_ok g"
    using generateRandomFormulaAST_names_ok [OF assms atoms] by blast
  then have s: "generateRandomFormulaString rnd k c = Some (formulaToUnicode g, k', c')"
    by (simp add: generateRandomFormulaString_def Let_def numAtoms_def atoms_def depth_def)
  have "tokenize (formulaToUnicode g) = Inr (tokens_of g)"
    using g(2) by (rule tokenize_formulaToUnicode)
  then obtain ast where
    ast: "parseFormula (formulaToUnicode g) = Inr ast" "forget_ids ast = forget_ids g"
    using parseFormula_of_print by blast
  then have "formulaToUnicode ast = formulaToUnicode g"
    using formulaToUnicode_forget_ids [of ast] formulaToUnicode_forget_ids [of g] by simp
  with s ast(1) show ?thesis by blast
qed

theorem generated_formula_round_trip_witness:
  "generateRandomFormulaString sample_rnd 0 0
     = Some (ascii ''(P '' @ [u_or] @ ascii '' Q)'', 6, 3)
   \<and> (\<exists>s k' c' ast. generateRandomFormulaString sample_rnd 0 0 = Some (s, k', c')
           \<and> parseFormula s = Inr ast \<and> formulaToUnicode ast = s)"
proof -
  have r: "\<forall>j. 0 \<le> sample_rnd j \<and> sample_rnd j < 1"
    by (simp add: sample_rnd_def)
  have "generateRandomFormulaString sample_rnd 0 0
     = Some (ascii ''(P '' @ [u_or] @ ascii '' Q)'', 6, 3)"
    by (simp add: generateRandomFormulaString_def generateRandomFormulaAST.simps
        sample_rnd_def randInt_def slice0_def ATOM_POOL_def randomAtom_def randomBinaryOp_def
        array_get_def genId_def ascii_def)
  with generated_formula_round_trip [OF r, of 0 0] show ?thesis by simp
qed

section \<open>The order of the rows\<close>

text \<open>
  C2. For distinct atom names (one upper-case letter each, so at most 26 of them):
  \<open>allAssignments\<close> returns \<open>2 ^ n\<close> rows, all different; every row is defined exactly
  on the atoms; row \<open>k\<close> has the binary value \<open>2 ^ n - 1 - k\<close>, so the values descend;
  the first row maps every atom to true and the last row maps every atom to false; and
  for P, Q the rows are TT, TF, FT, FF.
\<close>

theorem allAssignments_rows:
  assumes "distinct atoms" "list_all is_atom_name atoms"
  shows "length (allAssignments atoms) = 2 ^ length atoms
    \<and> distinct (allAssignments atoms)
    \<and> (\<forall>k < 2 ^ length atoms.
          dom (allAssignments atoms ! k) = set atoms
          \<and> row_value atoms (allAssignments atoms ! k) = 2 ^ length atoms - 1 - int k)
    \<and> (\<forall>a \<in> set atoms. hd (allAssignments atoms) a = Some True)
    \<and> (\<forall>a \<in> set atoms. last (allAssignments atoms) a = Some False)
    \<and> allAssignments [ascii ''P'', ascii ''Q'']
        = [[ascii ''P'' \<mapsto> True, ascii ''Q'' \<mapsto> True],
           [ascii ''P'' \<mapsto> True, ascii ''Q'' \<mapsto> False],
           [ascii ''P'' \<mapsto> False, ascii ''Q'' \<mapsto> True],
           [ascii ''P'' \<mapsto> False, ascii ''Q'' \<mapsto> False]]"
proof -
  let ?n = "length atoms"
  have n: "?n < 31"
    using atom_names_bound [OF assms] by simp
  have rows: "dom (allAssignments atoms ! k) = set atoms
      \<and> row_value atoms (allAssignments atoms ! k) = 2 ^ ?n - 1 - int k"
    if k: "k < 2 ^ ?n" for k
  proof -
    have "int k < 2 ^ ?n" using k by (metis of_nat_less_iff of_nat_numeral of_nat_power)
    then have "0 \<le> 2 ^ ?n - 1 - int k" "2 ^ ?n - 1 - int k < 2 ^ ?n" by simp_all
    then show ?thesis
      using assms(1) n by (simp add: allAssignments_nth [OF n k] row_of_dom row_value_row_of)
  qed
  show ?thesis
    using allAssignments_length [OF n] allAssignments_distinct [OF assms(1) n] rows
      allAssignments_first [OF assms(1) n] allAssignments_last [OF assms(1) n]
      allAssignments_P_Q
    by blast
qed

theorem allAssignments_rows_witness:
  "length (allAssignments [ascii ''P'', ascii ''Q'']) = 4
   \<and> distinct (allAssignments [ascii ''P'', ascii ''Q''])
   \<and> row_value [ascii ''P'', ascii ''Q''] (allAssignments [ascii ''P'', ascii ''Q''] ! 1) = 2
   \<and> dom (allAssignments [ascii ''P'', ascii ''Q''] ! 1) = {ascii ''P'', ascii ''Q''}
   \<and> hd (allAssignments [ascii ''P'', ascii ''Q'']) (ascii ''P'') = Some True
   \<and> last (allAssignments [ascii ''P'', ascii ''Q'']) (ascii ''Q'') = Some False"
proof -
  have d: "distinct [ascii ''P'', ascii ''Q'']"
    by (simp add: ascii_def)
  have a: "list_all is_atom_name [ascii ''P'', ascii ''Q'']"
    by (simp add: ascii_def is_atom_name_def)
  note th = allAssignments_rows [OF d a]
  have k: "(1::nat) < 2 ^ length [ascii ''P'', ascii ''Q'']"
    by simp
  have "length (allAssignments [ascii ''P'', ascii ''Q'']) = 4"
    using th by simp
  moreover have "distinct (allAssignments [ascii ''P'', ascii ''Q''])"
    using th by (rule conjunct2 [THEN conjunct1])
  moreover have "dom (allAssignments [ascii ''P'', ascii ''Q''] ! 1)
                   = set [ascii ''P'', ascii ''Q'']
      \<and> row_value [ascii ''P'', ascii ''Q''] (allAssignments [ascii ''P'', ascii ''Q''] ! 1)
          = 2 ^ length [ascii ''P'', ascii ''Q''] - 1 - int 1"
    using th k by blast
  moreover have "hd (allAssignments [ascii ''P'', ascii ''Q'']) (ascii ''P'') = Some True"
    using th by simp
  moreover have "last (allAssignments [ascii ''P'', ascii ''Q'']) (ascii ''Q'') = Some False"
    using th by simp
  ultimately show ?thesis by simp
qed

end
